theory Spec2Isabelle
  imports Main "HOL-Library.Word"
begin

section \<open>Data model\<close>

text \<open>
  A JavaScript string is a sequence of UTF-16 code units. Its \<open>length\<close>, indexing,
  \<open>substr\<close>, \<open>split\<close> and a regular expression without the \<open>u\<close> flag all work on code
  units, so the model is a list of 16-bit words. \<open>js\<close> turns a literal of the source
  (ASCII) into such a string.
\<close>

type_synonym code_unit = "16 word"
type_synonym jsstring = "code_unit list"

definition js :: "string \<Rightarrow> jsstring" where
  "js s = map of_char s"

text \<open>
  \<open>{ r: number; g: number; b: number }\<close>. The only producer is \<open>parseColor\<close>, whose
  components are results of \<open>parseInt\<close>: integers.
\<close>

record color =
  r :: int
  g :: int
  b :: int

record dimensions =
  width :: int
  height :: int

text \<open>\<open>interface ParsedQRParams\<close> of validators.ts (\<open>size\<close> is the field \<open>sizeP\<close>).\<close>

record ParsedQRParams =
  data :: jsstring
  sizeP :: dimensions
  charsetSource :: jsstring
  charsetTarget :: jsstring
  ecc :: jsstring
  color :: color
  bgcolor :: color
  margin :: int
  qzone :: int
  format :: jsstring

text \<open>
  The QR symbol of the library qrcode-generator, as far as the renderers use it:
  \<open>qr.getModuleCount()\<close> and \<open>qr.isDark(row, col)\<close>.
\<close>

record qrcode =
  getModuleCount :: int
  isDark :: "int \<Rightarrow> int \<Rightarrow> bool"

section \<open>Geometry\<close>

text \<open>
  The local constants both renderers compute before drawing. All operands are integers
  (\<open>parseInt\<close> results and the module count), far below \<open>2^53\<close>, so the doubles of the
  source are exact and \<open>Math.floor(a / b)\<close> is \<open>a div b\<close> whenever \<open>b\<close> is not zero;
  \<open>Math.floor(params.margin)\<close> is \<open>params.margin\<close> itself. With \<open>totalModules = 0\<close> the
  source leaves the integers (\<open>Infinity\<close>, \<open>NaN\<close>); every statement below keeps
  \<open>totalModules\<close> positive.
\<close>

record geometry =
  marginPx :: int
  totalModules :: int
  available :: int
  moduleSize :: int
  contentSize :: int
  leftover :: int
  offset :: int

text \<open>Lines 116 to 125 of qr-generator.ts, in \<open>generatePNG\<close>.\<close>

definition png_geometry :: "qrcode \<Rightarrow> ParsedQRParams \<Rightarrow> geometry" where
  "png_geometry qr params =
    (let moduleCount = getModuleCount qr;
         size = width (sizeP params);
         marginPx = max 0 (margin params);
         totalModules = moduleCount + 2 * qzone params;
         available = max 0 (size - 2 * marginPx);
         moduleSize = max 1 (available div totalModules);
         contentSize = moduleSize * totalModules;
         leftover = max 0 (available - contentSize);
         offset = marginPx + leftover div 2 + qzone params * moduleSize
     in \<lparr> marginPx = marginPx, totalModules = totalModules, available = available,
          moduleSize = moduleSize, contentSize = contentSize, leftover = leftover,
          offset = offset \<rparr>)"

text \<open>Lines 85 to 93 of qr-generator.ts, in \<open>generateQRCodeSVG\<close>.\<close>

definition svg_geometry :: "qrcode \<Rightarrow> ParsedQRParams \<Rightarrow> geometry" where
  "svg_geometry qr params =
    (let size = width (sizeP params);
         moduleCount = getModuleCount qr;
         marginPx = max 0 (margin params);
         totalModules = moduleCount + 2 * qzone params;
         available = max 0 (size - 2 * marginPx);
         moduleSize = max 1 (available div totalModules);
         contentSize = moduleSize * totalModules;
         leftover = max 0 (available - contentSize);
         offset = marginPx + leftover div 2 + qzone params * moduleSize
     in \<lparr> marginPx = marginPx, totalModules = totalModules, available = available,
          moduleSize = moduleSize, contentSize = contentSize, leftover = leftover,
          offset = offset \<rparr>)"

text \<open>
  The geometry in the words of the specification: \<open>availablePx\<close>, \<open>moduleSizePx\<close>,
  \<open>contentPx\<close>, \<open>leftoverPx\<close> and \<open>offsetPx\<close> are the fields \<open>available\<close>,
  \<open>moduleSize\<close>, \<open>contentSize\<close>, \<open>leftover\<close> and \<open>offset\<close>.
\<close>

definition spec_geometry :: "int \<Rightarrow> int \<Rightarrow> int \<Rightarrow> int \<Rightarrow> geometry" where
  "spec_geometry moduleCount targetSize marginPx' quietZoneModules =
    \<lparr> marginPx = marginPx',
      totalModules = moduleCount + 2 * quietZoneModules,
      available = max 0 (targetSize - 2 * marginPx'),
      moduleSize =
        max 1 (max 0 (targetSize - 2 * marginPx') div (moduleCount + 2 * quietZoneModules)),
      contentSize =
        max 1 (max 0 (targetSize - 2 * marginPx') div (moduleCount + 2 * quietZoneModules))
          * (moduleCount + 2 * quietZoneModules),
      leftover =
        max 0 (max 0 (targetSize - 2 * marginPx')
          - max 1 (max 0 (targetSize - 2 * marginPx') div (moduleCount + 2 * quietZoneModules))
              * (moduleCount + 2 * quietZoneModules)),
      offset =
        marginPx'
        + max 0 (max 0 (targetSize - 2 * marginPx')
            - max 1 (max 0 (targetSize - 2 * marginPx') div (moduleCount + 2 * quietZoneModules))
                * (moduleCount + 2 * quietZoneModules)) div 2
        + quietZoneModules
            * max 1 (max 0 (targetSize - 2 * marginPx') div (moduleCount + 2 * quietZoneModules))
    \<rparr>"

text \<open>
  The ranges the specification documents: a module count that is odd and at least 21, a
  positive target size, a margin in [0,50] and a quiet zone in [0,100].
\<close>

definition documented_ranges :: "qrcode \<Rightarrow> ParsedQRParams \<Rightarrow> bool" where
  "documented_ranges qr params \<longleftrightarrow>
     21 \<le> getModuleCount qr \<and> odd (getModuleCount qr) \<and> 1 \<le> width (sizeP params)
     \<and> 0 \<le> margin params \<and> margin params \<le> 50
     \<and> 0 \<le> qzone params \<and> qzone params \<le> 100"

text \<open>
  A symbol of 21 modules, dark where row + col is even, and the request of the
  specification's scenario.
\<close>

definition qr21 :: qrcode where
  "qr21 = \<lparr> getModuleCount = 21, isDark = (\<lambda>row col. even (row + col)) \<rparr>"

definition params200 :: ParsedQRParams where
  "params200 =
    \<lparr> data = js ''hi'', sizeP = \<lparr> width = 200, height = 200 \<rparr>,
      charsetSource = js ''UTF-8'', charsetTarget = js ''UTF-8'', ecc = js ''L'',
      color = \<lparr> r = 0, g = 0, b = 0 \<rparr>, bgcolor = \<lparr> r = 255, g = 255, b = 255 \<rparr>,
      margin = 1, qzone = 0, format = js ''png'' \<rparr>"

section \<open>Raster renderer\<close>

text \<open>
  \<open>imageData\<close> is a \<open>Uint8Array\<close>, all zero when it is made. A store
  \<open>imageData[i] = v\<close> keeps \<open>v\<close> modulo 256 when \<open>i\<close> is an index of the array and is
  dropped silently otherwise. The field \<open>outOfBounds\<close> is a ghost of the model: it
  records that some store was dropped, which the source cannot observe. The length
  asked for in \<open>generatePNG\<close> is four times a square, so it is never negative; for a
  validated request it is at most 4000000, far from the limit of the engine.
\<close>

type_synonym byte = "8 word"

record raster =
  imageData :: "byte list"
  outOfBounds :: bool

definition new_Uint8Array :: "int \<Rightarrow> raster" where
  "new_Uint8Array n = \<lparr> imageData = replicate (nat n) 0, outOfBounds = False \<rparr>"

definition store :: "raster \<Rightarrow> int \<Rightarrow> int \<Rightarrow> raster" where
  "store img i v =
    (if 0 \<le> i \<and> i < int (length (imageData img))
     then img\<lparr> imageData := (imageData img)[nat i := of_int v] \<rparr>
     else img\<lparr> outOfBounds := True \<rparr>)"

text \<open>Lines 130 to 135: \<open>for (let i = 0; i < imageData.length; i += 4)\<close>.\<close>

function fillBackground :: "color \<Rightarrow> int \<Rightarrow> raster \<Rightarrow> raster" where
  "fillBackground bg i img =
    (if i < int (length (imageData img))
     then fillBackground bg (i + 4)
            (store (store (store (store img i (r bg)) (i + 1) (g bg)) (i + 2) (b bg)) (i + 3) 255)
     else img)"
  by pat_completeness auto
termination
  by (relation "measure (\<lambda>(bg, i, img). nat (int (length (imageData img)) - i))")
     (auto simp: store_def)

declare fillBackground.simps [simp del]

text \<open>The four stores of one pixel, as lines 131 to 134 and 149 to 152 write them.\<close>

definition store4 :: "raster \<Rightarrow> int \<Rightarrow> color \<Rightarrow> raster" where
  "store4 img i c =
    store (store (store (store img i (r c)) (i + 1) (g c)) (i + 2) (b c)) (i + 3) 255"

text \<open>Lines 145 to 153: the body of the innermost loop, with its one-sided clip.\<close>

definition plot :: "int \<Rightarrow> color \<Rightarrow> int \<Rightarrow> int \<Rightarrow> raster \<Rightarrow> raster" where
  "plot actualSize fg pixelX pixelY img =
    (if pixelX < actualSize \<and> pixelY < actualSize
     then (let index = (pixelY * actualSize + pixelX) * 4
           in store (store (store (store img index (r fg)) (index + 1) (g fg))
                (index + 2) (b fg)) (index + 3) 255)
     else img)"

text \<open>Lines 143 to 155: the two loops over the pixels of one module.\<close>

definition drawModule :: "int \<Rightarrow> color \<Rightarrow> int \<Rightarrow> int \<Rightarrow> int \<Rightarrow> raster \<Rightarrow> raster" where
  "drawModule actualSize fg moduleSize' startX startY img =
    fold (\<lambda>y. fold (\<lambda>x. plot actualSize fg (startX + x) (startY + y)) [0..moduleSize' - 1])
      [0..moduleSize' - 1] img"

text \<open>Lines 138 to 158: the two loops over the modules.\<close>

definition drawModules :: "qrcode \<Rightarrow> int \<Rightarrow> color \<Rightarrow> int \<Rightarrow> int \<Rightarrow> raster \<Rightarrow> raster" where
  "drawModules qr actualSize fg moduleSize' offset' img =
    fold (\<lambda>row. fold (\<lambda>col img'.
            if isDark qr row col
            then drawModule actualSize fg moduleSize'
                   (offset' + col * moduleSize') (offset' + row * moduleSize') img'
            else img')
          [0..getModuleCount qr - 1])
      [0..getModuleCount qr - 1] img"

text \<open>
  \<open>generatePNG\<close> up to the call of the PNG encoder: the result is the array handed to
  \<open>UPNG.encode\<close> with width and height \<open>actualSize\<close>.
\<close>

definition generatePNG :: "qrcode \<Rightarrow> ParsedQRParams \<Rightarrow> raster" where
  "generatePNG qr params =
    (let geo = png_geometry qr params;
         actualSize = width (sizeP params);
         imageData = new_Uint8Array (actualSize * actualSize * 4);
         filled = fillBackground (bgcolor params) 0 imageData
     in drawModules qr actualSize (color params) (moduleSize geo) (offset geo) filled)"

text \<open>
  Reading the result: the four bytes of the pixel at column \<open>x\<close> and row \<open>y\<close> of a
  row-major RGBA canvas of side \<open>n\<close>, the four bytes of an opaque colour, and the
  pixels inside the square of some dark module.
\<close>

definition pixel_at :: "raster \<Rightarrow> int \<Rightarrow> int \<Rightarrow> int \<Rightarrow> byte list" where
  "pixel_at img n x y = take 4 (drop (nat ((y * n + x) * 4)) (imageData img))"

definition rgba :: "color \<Rightarrow> byte list" where
  "rgba c = [of_int (r c), of_int (g c), of_int (b c), 255]"

definition in_dark_module :: "qrcode \<Rightarrow> int \<Rightarrow> int \<Rightarrow> int \<Rightarrow> int \<Rightarrow> bool" where
  "in_dark_module qr offsetPx moduleSizePx x y =
    (\<exists>row \<in> {0..<getModuleCount qr}. \<exists>col \<in> {0..<getModuleCount qr}.
       isDark qr row col
       \<and> offsetPx + col * moduleSizePx \<le> x \<and> x < offsetPx + (col + 1) * moduleSizePx
       \<and> offsetPx + row * moduleSizePx \<le> y \<and> y < offsetPx + (row + 1) * moduleSizePx)"

text \<open>
  The pixels the drawing loops visit, in the order of the loops: those of one module,
  and those of all dark modules. \<open>plots\<close> runs the loop body over such a list.
\<close>

definition module_pixels :: "int \<Rightarrow> int \<Rightarrow> int \<Rightarrow> (int \<times> int) list" where
  "module_pixels moduleSize' startX startY =
    concat (map (\<lambda>y. map (\<lambda>x. (startX + x, startY + y)) [0..moduleSize' - 1])
      [0..moduleSize' - 1])"

definition dark_pixels :: "qrcode \<Rightarrow> int \<Rightarrow> int \<Rightarrow> (int \<times> int) list" where
  "dark_pixels qr moduleSize' offset' =
    concat (map (\<lambda>row. concat (map (\<lambda>col.
        if isDark qr row col
        then module_pixels moduleSize' (offset' + col * moduleSize') (offset' + row * moduleSize')
        else [])
      [0..getModuleCount qr - 1]))
    [0..getModuleCount qr - 1])"

definition plots :: "int \<Rightarrow> color \<Rightarrow> (int \<times> int) list \<Rightarrow> raster \<Rightarrow> raster" where
  "plots actualSize fg ps img =
    fold (\<lambda>(pixelX, pixelY). plot actualSize fg pixelX pixelY) ps img"

text \<open>
  The degenerate scenario of the specification: a canvas of side 10 for 21 modules with
  a quiet zone of 4 modules, so that the modules overflow the canvas.
\<close>

definition params10 :: ParsedQRParams where
  "params10 =
    \<lparr> data = js ''hi'', sizeP = \<lparr> width = 10, height = 10 \<rparr>,
      charsetSource = js ''UTF-8'', charsetTarget = js ''UTF-8'', ecc = js ''L'',
      color = \<lparr> r = 0, g = 0, b = 0 \<rparr>, bgcolor = \<lparr> r = 255, g = 255, b = 255 \<rparr>,
      margin = 1, qzone = 4, format = js ''png'' \<rparr>"

text \<open>
  The request of the first scenario with \<open>color=fff\<close> and \<open>bgcolor=fff\<close>: foreground
  and background are the same white.
\<close>

definition params_white :: ParsedQRParams where
  "params_white =
    \<lparr> data = js ''hi'', sizeP = \<lparr> width = 200, height = 200 \<rparr>,
      charsetSource = js ''UTF-8'', charsetTarget = js ''UTF-8'', ecc = js ''L'',
      color = \<lparr> r = 255, g = 255, b = 255 \<rparr>, bgcolor = \<lparr> r = 255, g = 255, b = 255 \<rparr>,
      margin = 1, qzone = 0, format = js ''png'' \<rparr>"

section \<open>Vector renderer\<close>

text \<open>
  \<open>Number.prototype.toString(radix)\<close> on an integer (of a magnitude below 10^21,
  where the decimal form has no exponent): the digits of its magnitude, most significant
  first, with lower-case letters, after a minus sign when it is negative. A template
  literal with a number in it is \<open>toString\<close> with radix 10.
\<close>

definition digit_char :: "nat \<Rightarrow> code_unit" where
  "digit_char d = (if d < 10 then of_nat (48 + d) else of_nat (87 + d))"

function digits :: "nat \<Rightarrow> nat \<Rightarrow> jsstring" where
  "digits radix n =
    (if n < radix \<or> radix < 2 then [digit_char n]
     else digits radix (n div radix) @ [digit_char (n mod radix)])"
  by pat_completeness auto
termination
  by (relation "measure (\<lambda>(radix, n). n)") auto

declare digits.simps [simp del]

definition toString :: "int \<Rightarrow> nat \<Rightarrow> jsstring" where
  "toString n radix =
    (if n < 0 then of_char CHR ''-'' # digits radix (nat (- n)) else digits radix (nat n))"

text \<open>\<open>s.padStart(targetLength, c)\<close> for a pad string of one code unit.\<close>

definition padStart :: "jsstring \<Rightarrow> nat \<Rightarrow> code_unit \<Rightarrow> jsstring" where
  "padStart s targetLength c = replicate (targetLength - length s) c @ s"

text \<open>Lines 18 to 21 of qr-generator.ts.\<close>

definition toHex :: "int \<Rightarrow> jsstring" where
  "toHex n = padStart (toString n 16) 2 (of_char CHR ''0'')"

definition colorToHex :: "color \<Rightarrow> jsstring" where
  "colorToHex c = toHex (r c) @ toHex (g c) @ toHex (b c)"

text \<open>Lines 80 to 112 of qr-generator.ts.\<close>

definition generateQRCodeSVG :: "qrcode \<Rightarrow> ParsedQRParams \<Rightarrow> jsstring" where
  \<open>generateQRCodeSVG qr params =
    (let size = width (sizeP params);
         dark = colorToHex (color params);
         light = colorToHex (bgcolor params);
         geo = svg_geometry qr params;
         actualWidth = size;
         svg = js ''<?xml version="1.0" encoding="UTF-8"?>\<newline><svg xmlns="http://www.w3.org/2000/svg" width="''
               @ toString actualWidth 10 @ js ''" height="'' @ toString actualWidth 10
               @ js ''" viewBox="0 0 '' @ toString actualWidth 10 @ js '' ''
               @ toString actualWidth 10 @ js ''">\<newline><rect width="''
               @ toString actualWidth 10 @ js ''" height="'' @ toString actualWidth 10
               @ js ''" fill="#'' @ light @ js ''"/>'';
         svg = fold (\<lambda>row. fold (\<lambda>col svg.
                   if isDark qr row col
                   then (let x = offset geo + col * moduleSize geo;
                             y = offset geo + row * moduleSize geo
                         in svg @ js ''<rect x="'' @ toString x 10 @ js ''" y="''
                              @ toString y 10 @ js ''" width="''
                              @ toString (moduleSize geo) 10 @ js ''" height="''
                              @ toString (moduleSize geo) 10 @ js ''" fill="#'' @ dark
                              @ js ''"/>'')
                   else svg)
                 [0..getModuleCount qr - 1])
               [0..getModuleCount qr - 1] svg
     in svg @ js ''</svg>'')\<close>

text \<open>
  The vector document in the words of the specification: the opening of the document
  with its fixed canvas, the background rectangle over the full canvas, the rectangle of
  one module, and the dark modules in row-major scan order (rows outer, columns inner).
\<close>

definition svg_prolog :: "int \<Rightarrow> jsstring" where
  \<open>svg_prolog targetSize =
    js ''<?xml version="1.0" encoding="UTF-8"?>\<newline><svg xmlns="http://www.w3.org/2000/svg" width="''
    @ toString targetSize 10 @ js ''" height="'' @ toString targetSize 10
    @ js ''" viewBox="0 0 '' @ toString targetSize 10 @ js '' '' @ toString targetSize 10
    @ js ''">\<newline>''\<close>

definition background_rect :: "int \<Rightarrow> jsstring \<Rightarrow> jsstring" where
  \<open>background_rect targetSize light =
    js ''<rect width="'' @ toString targetSize 10 @ js ''" height="'' @ toString targetSize 10
    @ js ''" fill="#'' @ light @ js ''"/>''\<close>

definition module_rect :: "int \<Rightarrow> int \<Rightarrow> int \<Rightarrow> jsstring \<Rightarrow> jsstring" where
  \<open>module_rect x y side dark =
    js ''<rect x="'' @ toString x 10 @ js ''" y="'' @ toString y 10 @ js ''" width="''
    @ toString side 10 @ js ''" height="'' @ toString side 10 @ js ''" fill="#'' @ dark
    @ js ''"/>''\<close>

definition row_major :: "int \<Rightarrow> (int \<times> int) list" where
  "row_major n = concat (map (\<lambda>row. map (\<lambda>col. (row, col)) [0..n - 1]) [0..n - 1])"

definition dark_modules :: "qrcode \<Rightarrow> (int \<times> int) list" where
  "dark_modules qr = filter (\<lambda>(row, col). isDark qr row col) (row_major (getModuleCount qr))"

text \<open>Scan order: an earlier row, or the same row and an earlier column.\<close>

definition scan_before :: "int \<times> int \<Rightarrow> int \<times> int \<Rightarrow> bool" where
  "scan_before p q \<longleftrightarrow> fst p < fst q \<or> (fst p = fst q \<and> snd p < snd q)"

section \<open>Charset conversion\<close>

text \<open>
  Lines 23 to 39 of qr-generator.ts. The regular expression matches every
  code unit outside the range 0x0000 to 0x00FF, globally. It has no
  \<open>u\<close> flag: it replaces every code unit above 0xFF, so each half of a surrogate pair
  becomes a question mark of its own.
\<close>

definition convertCharset :: "jsstring \<Rightarrow> jsstring \<Rightarrow> jsstring \<Rightarrow> jsstring" where
  "convertCharset text from to =
    (if from = to then text
     else if from = js ''UTF-8'' \<and> to = js ''ISO-8859-1''
       then map (\<lambda>c. if 0xFF < c then of_char CHR ''?'' else c) text
     else if from = js ''ISO-8859-1'' \<and> to = js ''UTF-8'' then text
     else text)"

section \<open>Colour parser\<close>

text \<open>
  \<open>parseInt(string, radix)\<close> of ECMAScript, for an explicit radix: leading white space
  is skipped, one sign is read, with radix 16 a prefix \<open>0x\<close> or \<open>0X\<close> is skipped, and the
  longest run of digits of the radix is the value; whatever follows is ignored, and
  no digit at all gives \<open>NaN\<close>, here \<open>None\<close>. The value is the exact integer: the source
  rounds it to a double, which changes neither a value up to 255 nor the outcome of the
  comparisons with 0 and 255 (the result \<open>-0\<close> is 0 here).
\<close>

definition isStrWhiteSpaceChar :: "code_unit \<Rightarrow> bool" where
  "isStrWhiteSpaceChar c \<longleftrightarrow>
     c \<in> {0x09, 0x0A, 0x0B, 0x0C, 0x0D, 0x20, 0xA0, 0x1680, 0x2028, 0x2029, 0x202F, 0x205F,
          0x3000, 0xFEFF}
     \<or> (0x2000 \<le> c \<and> c \<le> 0x200A)"

definition digitValue :: "code_unit \<Rightarrow> nat option" where
  "digitValue c =
    (if 0x30 \<le> c \<and> c \<le> 0x39 then Some (unat c - 48)
     else if 0x61 \<le> c \<and> c \<le> 0x7A then Some (unat c - 87)
     else if 0x41 \<le> c \<and> c \<le> 0x5A then Some (unat c - 55)
     else None)"

definition isRadixDigit :: "nat \<Rightarrow> code_unit \<Rightarrow> bool" where
  "isRadixDigit radix c = (case digitValue c of Some d \<Rightarrow> d < radix | None \<Rightarrow> False)"

definition digitsValue :: "nat \<Rightarrow> jsstring \<Rightarrow> nat" where
  "digitsValue radix Z =
    foldl (\<lambda>acc c. case digitValue c of Some d \<Rightarrow> acc * radix + d | None \<Rightarrow> acc) 0 Z"

definition parseInt :: "jsstring \<Rightarrow> nat \<Rightarrow> int option" where
  "parseInt inputString radix =
    (let S = dropWhile isStrWhiteSpaceChar inputString;
         sign = (if S \<noteq> [] \<and> hd S = of_char CHR ''-'' then - 1 else 1 :: int);
         S = (if S \<noteq> [] \<and> (hd S = of_char CHR ''+'' \<or> hd S = of_char CHR ''-'')
              then tl S else S)
     in if radix < 2 \<or> 36 < radix then None
        else (let S = (if radix = 16 \<and> (take 2 S = js ''0x'' \<or> take 2 S = js ''0X'')
                       then drop 2 S else S);
                  Z = takeWhile (isRadixDigit radix) S
              in if Z = [] then None else Some (sign * int (digitsValue radix Z))))"

text \<open>\<open>s.split(sep)\<close> for a separator of one code unit; the empty string gives one part.\<close>

fun split :: "code_unit \<Rightarrow> jsstring \<Rightarrow> jsstring list" where
  "split sep [] = [[]]"
| "split sep (c # cs) =
    (if c = sep then [] # split sep cs
     else (case split sep cs of [] \<Rightarrow> [[c]] | p # ps \<Rightarrow> (c # p) # ps))"

text \<open>\<open>class QRParamError\<close> of validators.ts: a message and a status code, 400 by default.\<close>

datatype error = QRParamError string nat

text \<open>Lines 46 to 52 of validators.ts: the function mapped over the three parts.\<close>

definition parseComponent :: "jsstring \<Rightarrow> error + int" where
  "parseComponent part =
    (case parseInt part 10 of
       None \<Rightarrow> Inl (QRParamError ''RGB values must be between 0 and 255'' 400)
     | Some num \<Rightarrow>
         if num < 0 \<or> num > 255
         then Inl (QRParamError ''RGB values must be between 0 and 255'' 400)
         else Inr num)"

text \<open>Lines 34 to 85 of validators.ts.\<close>

definition parseColor :: "jsstring \<Rightarrow> error + color" where
  "parseColor colorStr =
    (if colorStr = [] then Inl (QRParamError ''Color parameter is required'' 400)
     else if of_char CHR ''-'' \<in> set colorStr then
       (let parts = split (of_char CHR ''-'') colorStr
        in if length parts \<noteq> 3
           then Inl (QRParamError ''Invalid color format. Use RGB format like 255-0-0'' 400)
           else
             (case parseComponent (parts ! 0) of
                Inl e \<Rightarrow> Inl e
              | Inr r' \<Rightarrow>
                 (case parseComponent (parts ! 1) of
                    Inl e \<Rightarrow> Inl e
                  | Inr g' \<Rightarrow>
                     (case parseComponent (parts ! 2) of
                        Inl e \<Rightarrow> Inl e
                      | Inr b' \<Rightarrow> Inr \<lparr> r = r', g = g', b = b' \<rparr>))))
     else
       (let hex = (if hd colorStr = of_char CHR ''#'' then tl colorStr else colorStr)
        in if length hex = 3 then
             (case (parseInt [hex ! 0, hex ! 0] 16, parseInt [hex ! 1, hex ! 1] 16,
                    parseInt [hex ! 2, hex ! 2] 16) of
                (Some r', Some g', Some b') \<Rightarrow> Inr \<lparr> r = r', g = g', b = b' \<rparr>
              | _ \<Rightarrow> Inl (QRParamError ''Invalid hex color format'' 400))
           else if length hex = 6 then
             (case (parseInt (take 2 hex) 16, parseInt (take 2 (drop 2 hex)) 16,
                    parseInt (take 2 (drop 4 hex)) 16) of
                (Some r', Some g', Some b') \<Rightarrow> Inr \<lparr> r = r', g = g', b = b' \<rparr>
              | _ \<Rightarrow> Inl (QRParamError ''Invalid hex color format'' 400))
           else Inl (QRParamError
                  ''Invalid color format. Use RGB decimal (255-0-0) or hex (ff0000, f00)'' 400)))"

text \<open>
  The well-formed inputs in the words of the specification: three decimal numbers from
  0 to 255 between dashes, or three or six hexadecimal digits after an optional \<open>#\<close>.
\<close>

definition isDecDigit :: "code_unit \<Rightarrow> bool" where
  "isDecDigit c \<longleftrightarrow> 0x30 \<le> c \<and> c \<le> 0x39"

definition isHexDigit :: "code_unit \<Rightarrow> bool" where
  "isHexDigit c \<longleftrightarrow>
     (0x30 \<le> c \<and> c \<le> 0x39) \<or> (0x61 \<le> c \<and> c \<le> 0x66) \<or> (0x41 \<le> c \<and> c \<le> 0x46)"

definition wellFormedComponent :: "jsstring \<Rightarrow> bool" where
  "wellFormedComponent part \<longleftrightarrow>
     part \<noteq> [] \<and> list_all isDecDigit part \<and> digitsValue 10 part \<le> 255"

definition wellFormedColor :: "jsstring \<Rightarrow> bool" where
  "wellFormedColor colorStr \<longleftrightarrow>
     (let parts = split (of_char CHR ''-'') colorStr
      in length parts = 3 \<and> list_all wellFormedComponent parts)
     \<or> (let hex = (if colorStr \<noteq> [] \<and> hd colorStr = of_char CHR ''#''
                    then tl colorStr else colorStr)
        in (length hex = 3 \<or> length hex = 6) \<and> list_all isHexDigit hex)"

section \<open>Request parameters\<close>

text \<open>
  \<open>params\<close> in \<open>handleQRCodeRequest\<close> is a plain object. Reading \<open>params[key]\<close> gives the
  own property when there is one and otherwise what \<open>Object.prototype\<close> has under that
  name, an object or a function, always truthy; \<open>params["__proto__"] = value\<close> with a
  string is the setter of \<open>Object.prototype\<close>, which ignores a value that is not an
  object. The names are those of the ECMAScript standard with its Annex B.
\<close>

datatype jsvalue = Undefined | Str jsstring | Inherited

definition objectPrototypeKeys :: "jsstring list" where
  "objectPrototypeKeys =
    map js [''constructor'', ''__defineGetter__'', ''__defineSetter__'', ''hasOwnProperty'',
      ''__lookupGetter__'', ''__lookupSetter__'', ''isPrototypeOf'', ''propertyIsEnumerable'',
      ''toString'', ''valueOf'', ''__proto__'', ''toLocaleString'']"

definition getProp :: "(jsstring \<rightharpoonup> jsstring) \<Rightarrow> jsstring \<Rightarrow> jsvalue" where
  "getProp obj key =
    (case obj key of
       Some v \<Rightarrow> Str v
     | None \<Rightarrow> if key \<in> set objectPrototypeKeys then Inherited else Undefined)"

definition setProp :: "(jsstring \<rightharpoonup> jsstring) \<Rightarrow> jsstring \<Rightarrow> jsstring \<Rightarrow> (jsstring \<rightharpoonup> jsstring)" where
  "setProp obj key v = (if key = js ''__proto__'' then obj else obj(key \<mapsto> v))"

text \<open>\<open>!v\<close> for the values \<open>params[key]\<close> can have.\<close>

definition falsy :: "jsvalue \<Rightarrow> bool" where
  "falsy v \<longleftrightarrow> v = Undefined \<or> v = Str []"

text \<open>\<open>s.includes(search)\<close>, here \<open>str_includes\<close>.\<close>

fun str_includes :: "jsstring \<Rightarrow> jsstring \<Rightarrow> bool" where
  "str_includes [] search = (search = [])"
| "str_includes (c # cs) search =
    (take (length search) (c # cs) = search \<or> str_includes cs search)"

text \<open>
  What the handler reads of a request: the method, the \<open>content-type\<close> header
  (\<open>None\<close> for \<open>null\<close>), the entries of \<open>url.searchParams\<close>, those of
  \<open>await request.formData()\<close> and those of \<open>Object.entries(await request.json())\<close>,
  where a JSON value is a string or something else. A body that does not parse makes
  the handler answer 500 before it merges anything; the model takes a body that parsed.
\<close>

datatype jsonValue = JString jsstring | JOther

record request =
  httpMethod :: jsstring
  contentType :: "jsstring option"
  searchParams :: "(jsstring \<times> jsstring) list"
  formData :: "(jsstring \<times> jsstring) list"
  jsonData :: "(jsstring \<times> jsonValue) list"

text \<open>Lines 39 to 67 of the handler: \<open>params\<close> as \<open>validateAndParseParams\<close> receives it.\<close>

definition mergeParams :: "request \<Rightarrow> (jsstring \<rightharpoonup> jsstring)" where
  "mergeParams request =
    (let params = fold (\<lambda>(key, value) params. setProp params key value)
                    (searchParams request) Map.empty
     in if httpMethod request = js ''POST'' then
          (case contentType request of
             None \<Rightarrow> params
           | Some ct \<Rightarrow>
               if str_includes ct (js ''application/x-www-form-urlencoded'') then
                 fold (\<lambda>(key, value) params.
                         if falsy (getProp params key) then setProp params key value
                         else params)
                   (formData request) params
               else if str_includes ct (js ''application/json'') then
                 fold (\<lambda>(key, value) params.
                         case value of
                           JString v \<Rightarrow>
                             if falsy (getProp params key) then setProp params key v
                             else params
                         | JOther \<Rightarrow> params)
                   (jsonData request) params
               else params)
        else params)"

text \<open>
  A POST request whose query string is \<open>?color=\<close> and whose form body is
  \<open>color=f00\<close>.
\<close>

definition request_empty_get :: request where
  "request_empty_get =
    \<lparr> httpMethod = js ''POST'',
      contentType = Some (js ''application/x-www-form-urlencoded''),
      searchParams = [(js ''color'', [])],
      formData = [(js ''color'', js ''f00'')],
      jsonData = [] \<rparr>"

text \<open>
  A POST request whose query string is \<open>?color=0f0\<close> and whose form body is
  \<open>color=f00\<close>.
\<close>

definition request_both :: request where
  "request_both =
    \<lparr> httpMethod = js ''POST'',
      contentType = Some (js ''application/x-www-form-urlencoded''),
      searchParams = [(js ''color'', js ''0f0'')],
      formData = [(js ''color'', js ''f00'')],
      jsonData = [] \<rparr>"

section \<open>Geometry: the renderers against the specification\<close>

lemma png_geometry_spec:
  assumes "0 \<le> margin params"
  shows "png_geometry qr params =
           spec_geometry (getModuleCount qr) (width (sizeP params)) (margin params) (qzone params)"
proof -
  have m: "max 0 (margin params) = margin params"
    using assms by simp
  show ?thesis
    unfolding png_geometry_def spec_geometry_def Let_def m ..
qed

lemma svg_geometry_png: "svg_geometry qr params = png_geometry qr params"
  unfolding png_geometry_def svg_geometry_def Let_def ..

lemma spec_geometry_scenario:
  "moduleSize (spec_geometry 21 200 1 0) = 9 \<and> offset (spec_geometry 21 200 1 0) = 5"
  unfolding spec_geometry_def by simp

lemma png_geometry_moduleSize_pos: "1 \<le> moduleSize (png_geometry qr params)"
  by (simp only: png_geometry_def Let_def geometry.select_convs max.cobounded1)

lemma png_geometry_marginPx_nonneg: "0 \<le> marginPx (png_geometry qr params)"
  by (simp only: png_geometry_def Let_def geometry.select_convs max.cobounded1)

lemma png_geometry_leftover_nonneg: "0 \<le> leftover (png_geometry qr params)"
  by (simp only: png_geometry_def Let_def geometry.select_convs max.cobounded1)

lemma png_geometry_offset:
  "offset (png_geometry qr params) =
     marginPx (png_geometry qr params) + leftover (png_geometry qr params) div 2
       + qzone params * moduleSize (png_geometry qr params)"
  by (simp only: png_geometry_def Let_def geometry.select_convs)

lemma png_geometry_offset_nonneg:
  assumes "0 \<le> qzone params"
  shows "0 \<le> offset (png_geometry qr params)"
proof -
  let ?g = "png_geometry qr params"
  have "0 \<le> leftover ?g div 2"
    using png_geometry_leftover_nonneg [of qr params] by simp
  moreover have "0 \<le> qzone params * moduleSize ?g"
    using assms png_geometry_moduleSize_pos [of qr params] by simp
  ultimately show ?thesis
    using png_geometry_marginPx_nonneg [of qr params] png_geometry_offset [of qr params]
    by linarith
qed

text \<open>
  C1. For a module count that is odd and at least 21, a target size of at least 1, a
  margin in [0,50] and a quiet zone in [0,100], both renderers compute the geometry
  of the specification: totalModules = moduleCount + 2*quietZoneModules, availablePx =
  max(0, targetSize - 2*marginPx), moduleSizePx = max(1, floor(availablePx /
  totalModules)), contentPx = moduleSizePx * totalModules, leftoverPx = max(0,
  availablePx - contentPx), offsetPx = marginPx + floor(leftoverPx/2) +
  quietZoneModules*moduleSizePx. The module size is at least 1, and for moduleCount =
  21, targetSize = 200, marginPx = 1, quietZoneModules = 0 it is 9, with offset 5.
\<close>

theorem C1_geometry_as_specified:
  assumes "21 \<le> getModuleCount qr" and "odd (getModuleCount qr)"
    and "1 \<le> width (sizeP params)"
    and "0 \<le> margin params" and "margin params \<le> 50"
    and "0 \<le> qzone params" and "qzone params \<le> 100"
  shows "png_geometry qr params =
           spec_geometry (getModuleCount qr) (width (sizeP params)) (margin params) (qzone params)
       \<and> svg_geometry qr params =
           spec_geometry (getModuleCount qr) (width (sizeP params)) (margin params) (qzone params)
       \<and> 1 \<le> moduleSize (png_geometry qr params)
       \<and> 1 \<le> moduleSize (svg_geometry qr params)
       \<and> (getModuleCount qr = 21 \<and> width (sizeP params) = 200 \<and> margin params = 1
            \<and> qzone params = 0
          \<longrightarrow> moduleSize (png_geometry qr params) = 9 \<and> offset (png_geometry qr params) = 5
            \<and> moduleSize (svg_geometry qr params) = 9 \<and> offset (svg_geometry qr params) = 5)"
proof -
  let ?s = "spec_geometry (getModuleCount qr) (width (sizeP params)) (margin params) (qzone params)"
  have a: "png_geometry qr params = ?s"
    using assms(4) by (rule png_geometry_spec)
  have b: "svg_geometry qr params = ?s"
    using a by (simp only: svg_geometry_png)
  have c: "1 \<le> moduleSize (png_geometry qr params)"
    by (rule png_geometry_moduleSize_pos)
  have d: "1 \<le> moduleSize (svg_geometry qr params)"
    using c by (simp only: svg_geometry_png)
  have e: "moduleSize (png_geometry qr params) = 9 \<and> offset (png_geometry qr params) = 5
      \<and> moduleSize (svg_geometry qr params) = 9 \<and> offset (svg_geometry qr params) = 5"
    if "getModuleCount qr = 21 \<and> width (sizeP params) = 200 \<and> margin params = 1
      \<and> qzone params = 0"
    using that a b spec_geometry_scenario by simp
  show ?thesis
    using a b c d e by blast
qed

theorem C1_geometry_scenario_witness:
  "png_geometry qr21 params200 = spec_geometry 21 200 1 0
   \<and> svg_geometry qr21 params200 = spec_geometry 21 200 1 0
   \<and> moduleSize (png_geometry qr21 params200) = 9
   \<and> offset (png_geometry qr21 params200) = 5
   \<and> moduleSize (svg_geometry qr21 params200) = 9
   \<and> offset (svg_geometry qr21 params200) = 5"
proof -
  have h: "21 \<le> getModuleCount qr21" "odd (getModuleCount qr21)"
    "1 \<le> width (sizeP params200)" "0 \<le> margin params200" "margin params200 \<le> 50"
    "0 \<le> qzone params200" "qzone params200 \<le> 100"
    by (simp_all add: qr21_def params200_def)
  have v: "getModuleCount qr21 = 21" "width (sizeP params200) = 200"
    "margin params200 = 1" "qzone params200 = 0"
    by (simp_all add: qr21_def params200_def)
  note t = C1_geometry_as_specified [OF h, unfolded v]
  from t show ?thesis
    by blast
qed

text \<open>
  C4. For every module matrix and configuration the vector path and the raster path
  compute the same offset and the same module size, so the rectangle of the module at
  (row, col) has the same corner and the same side in both outputs.
\<close>

theorem C4_svg_png_same_geometry:
  "offset (svg_geometry qr params) = offset (png_geometry qr params)
   \<and> moduleSize (svg_geometry qr params) = moduleSize (png_geometry qr params)
   \<and> offset (svg_geometry qr params) + col * moduleSize (svg_geometry qr params)
       = offset (png_geometry qr params) + col * moduleSize (png_geometry qr params)
   \<and> offset (svg_geometry qr params) + row * moduleSize (svg_geometry qr params)
       = offset (png_geometry qr params) + row * moduleSize (png_geometry qr params)"
  by (simp only: svg_geometry_png)

section \<open>Raster renderer: the canvas\<close>

lemma quad_cases:
  fixes k Q :: nat
  shows "k = Q * 4 \<or> k = Q * 4 + 1 \<or> k = Q * 4 + 2 \<or> k = Q * 4 + 3 \<or> k div 4 \<noteq> Q"
  by presburger

lemma quad_other:
  fixes k Q :: nat
  assumes "k div 4 \<noteq> Q"
  shows "k \<noteq> Q * 4 \<and> k \<noteq> Q * 4 + 1 \<and> k \<noteq> Q * 4 + 2 \<and> k \<noteq> Q * 4 + 3"
  using assms by presburger

lemma quad_divmod:
  fixes Q :: nat
  shows "(Q * 4) div 4 = Q" "(Q * 4) mod 4 = 0"
    "Suc (Q * 4) div 4 = Q" "Suc (Q * 4) mod 4 = 1"
    "Suc (Suc (Q * 4)) div 4 = Q" "Suc (Suc (Q * 4)) mod 4 = 2"
    "Suc (Suc (Suc (Q * 4))) div 4 = Q" "Suc (Suc (Suc (Q * 4))) mod 4 = 3"
  by presburger+

lemma quad_update_nth:
  fixes Q k :: nat
  assumes "Q * 4 + 3 < length xs" and "k < length xs"
  shows "xs[Q * 4 := a0, Q * 4 + 1 := a1, Q * 4 + 2 := a2, Q * 4 + 3 := a3] ! k =
    (if k div 4 = Q then [a0, a1, a2, a3] ! (k mod 4) else xs ! k)"
proof -
  consider (a) "k = Q * 4" | (b) "k = Q * 4 + 1" | (c) "k = Q * 4 + 2"
    | (d) "k = Q * 4 + 3" | (e) "k div 4 \<noteq> Q"
    using quad_cases [of k Q] by blast
  then show ?thesis
  proof cases
    case a
    then show ?thesis using assms(1) by (simp add: quad_divmod)
  next
    case b
    then show ?thesis using assms(1) by (simp add: quad_divmod)
  next
    case c
    then show ?thesis using assms(1) by (simp add: quad_divmod)
  next
    case d
    then show ?thesis using assms(1) by (simp add: quad_divmod)
  next
    case e
    then show ?thesis
      using quad_other [OF e] assms(2) by simp
  qed
qed

lemma store_length: "length (imageData (store img i v)) = length (imageData img)"
  by (simp add: store_def)

lemma store4_length: "length (imageData (store4 img i c)) = length (imageData img)"
  by (simp add: store4_def store_length)

lemma store4_inside:
  assumes "0 \<le> i" and "i + 3 < int (length (imageData img))"
  shows "store4 img i c =
    img\<lparr> imageData := (imageData img)[nat i := of_int (r c), nat i + 1 := of_int (g c),
      nat i + 2 := of_int (b c), nat i + 3 := 255] \<rparr>"
proof -
  have n: "nat (i + 1) = nat i + 1" "nat (i + 2) = nat i + 2" "nat (i + 3) = nat i + 3"
    using assms(1) by simp_all
  show ?thesis
    using assms by (simp add: store4_def store_def n)
qed

lemma store4_outOfBounds:
  assumes "0 \<le> i" and "i + 3 < int (length (imageData img))"
  shows "outOfBounds (store4 img i c) = outOfBounds img"
  by (simp add: store4_inside [OF assms])

lemma store4_nth:
  assumes "0 \<le> q" and "q * 4 + 3 < int (length (imageData img))"
    and "k < length (imageData img)"
  shows "imageData (store4 img (q * 4) c) ! k =
    (if k div 4 = nat q then rgba c ! (k mod 4) else imageData img ! k)"
proof -
  have i: "0 \<le> q * 4" using assms(1) by simp
  have n: "nat (q * 4) = nat q * 4" using assms(1) by (simp add: nat_mult_distrib)
  have l: "nat q * 4 + 3 < length (imageData img)" using assms(1,2) by linarith
  have "imageData (store4 img (q * 4) c) =
      (imageData img)[nat q * 4 := of_int (r c), nat q * 4 + 1 := of_int (g c),
        nat q * 4 + 2 := of_int (b c), nat q * 4 + 3 := 255]"
    by (simp add: store4_inside [OF i assms(2)] n del: list_update.simps)
  then show ?thesis
    by (simp only: quad_update_nth [OF l assms(3)] rgba_def)
qed

lemma fillBackground_step:
  "fillBackground bg i img =
    (if i < int (length (imageData img)) then fillBackground bg (i + 4) (store4 img i bg) else img)"
  by (subst fillBackground.simps) (simp only: store4_def)

lemma fillBackground_inv:
  assumes "i = q * 4" and "0 \<le> q" and "length (imageData img) = m * 4"
  shows "length (imageData (fillBackground bg i img)) = length (imageData img)
    \<and> outOfBounds (fillBackground bg i img) = outOfBounds img
    \<and> (\<forall>k < length (imageData img). imageData (fillBackground bg i img) ! k =
          (if nat q \<le> k div 4 then rgba bg ! (k mod 4) else imageData img ! k))"
  using assms
proof (induction bg i img arbitrary: q rule: fillBackground.induct)
  case (1 bg i img)
  show ?case
  proof (cases "i < int (length (imageData img))")
    case False
    then have "fillBackground bg i img = img"
      by (subst fillBackground_step) simp
    moreover have "\<not> nat q \<le> k div 4" if "k < length (imageData img)" for k
    proof -
      have "int m * 4 \<le> q * 4"
        using False "1.prems" by simp
      then have "m \<le> nat q"
        by linarith
      moreover have "k div 4 < m"
        using that "1.prems" by simp
      ultimately show ?thesis
        by linarith
    qed
    ultimately show ?thesis by simp
  next
    case True
    let ?img = "store4 img i bg"
    have step: "fillBackground bg i img = fillBackground bg (i + 4) ?img"
      by (subst fillBackground_step) (simp add: True)
    have i0: "0 \<le> i" using "1.prems" by simp
    have "q * 4 < int m * 4"
      using True "1.prems" by simp
    then have "q < int m"
      by simp
    then have "q * 4 + 3 < int m * 4"
      by linarith
    then have i3: "i + 3 < int (length (imageData img))"
      using "1.prems" by simp
    have len: "length (imageData ?img) = m * 4"
      using "1.prems" by (simp add: store4_length)
    have q': "i + 4 = (q + 1) * 4" "0 \<le> q + 1"
      using "1.prems" by simp_all
    note IH = "1.IH" [OF True, folded store4_def, OF q' len]
    have nth: "imageData (fillBackground bg i img) ! k =
        (if nat q \<le> k div 4 then rgba bg ! (k mod 4) else imageData img ! k)"
      if k: "k < length (imageData img)" for k
    proof -
      have a: "imageData (fillBackground bg i img) ! k =
          (if nat (q + 1) \<le> k div 4 then rgba bg ! (k mod 4) else imageData ?img ! k)"
        using IH k by (simp add: step store4_length)
      have b: "imageData ?img ! k =
          (if k div 4 = nat q then rgba bg ! (k mod 4) else imageData img ! k)"
        using store4_nth [of q img k bg] "1.prems" i3 k by simp
      have c: "nat (q + 1) = nat q + 1" using "1.prems" by simp
      show ?thesis
        unfolding a b c by auto
    qed
    have "length (imageData (fillBackground bg i img)) = length (imageData img)"
      using IH by (simp add: step store4_length)
    moreover have "outOfBounds (fillBackground bg i img) = outOfBounds img"
      using IH by (simp add: step store4_outOfBounds [OF i0 i3])
    ultimately show ?thesis
      using nth by blast
  qed
qed

lemma plot_store4:
  "plot n fg px py img =
    (if px < n \<and> py < n then store4 img ((py * n + px) * 4) fg else img)"
  by (simp only: plot_def Let_def store4_def)

lemma pixel_index_bounds:
  fixes n px py :: int
  assumes "0 \<le> px" and "px < n" and "0 \<le> py" and "py < n"
  shows "0 \<le> py * n + px" and "(py * n + px) * 4 + 3 < n * n * 4"
proof -
  have n: "0 \<le> n" using assms by linarith
  show "0 \<le> py * n + px"
    using assms n by simp
  define q where "q = py * n + px"
  define N where "N = n * n"
  have "py * n \<le> (n - 1) * n"
    using assms n by (intro mult_right_mono) simp_all
  then have "py * n + px \<le> (n - 1) * n + (n - 1)"
    using assms by linarith
  also have "\<dots> = n * n - 1"
    by (simp add: algebra_simps)
  finally have "q \<le> N - 1"
    by (simp only: q_def N_def)
  then have "q * 4 + 3 < N * 4"
    by linarith
  then show "(py * n + px) * 4 + 3 < n * n * 4"
    by (simp only: q_def N_def)
qed

lemma pixel_index_divmod:
  fixes n x y :: int
  assumes "0 \<le> x" and "x < n"
  shows "(y * n + x) mod n = x" and "(y * n + x) div n = y"
  using assms by simp_all

lemma pixel_index_inj:
  fixes n px py x y :: int
  assumes "0 \<le> px" and "px < n" and "0 \<le> x" and "x < n"
    and "py * n + px = y * n + x"
  shows "px = x \<and> py = y"
proof -
  have "(py * n + px) mod n = px" "(y * n + x) mod n = x"
    using assms(1-4) by (simp_all only: pixel_index_divmod)
  then have x: "px = x" by (simp only: assms(5))
  have "(py * n + px) div n = py" "(y * n + x) div n = y"
    using assms(1-4) by (simp_all only: pixel_index_divmod)
  then have "py = y" by (simp only: assms(5))
  with x show ?thesis by simp
qed

lemma plot_inv:
  assumes "0 \<le> px" and "0 \<le> py" and "length (imageData img) = nat (n * n * 4)"
  shows "length (imageData (plot n fg px py img)) = length (imageData img)
    \<and> outOfBounds (plot n fg px py img) = outOfBounds img
    \<and> (\<forall>k < length (imageData img). imageData (plot n fg px py img) ! k =
          (if px < n \<and> py < n \<and> k div 4 = nat (py * n + px)
           then rgba fg ! (k mod 4) else imageData img ! k))"
proof (cases "px < n \<and> py < n")
  case False
  then have "plot n fg px py img = img"
    by (simp only: plot_store4 if_False)
  then show ?thesis
    using False by auto
next
  case True
  let ?q = "py * n + px"
  have p: "plot n fg px py img = store4 img (?q * 4) fg"
    using True by (simp add: plot_store4)
  have q0: "0 \<le> ?q" and q3: "?q * 4 + 3 < n * n * 4"
    using pixel_index_bounds [of px n py] assms True by simp_all
  have q0': "0 \<le> ?q * 4" using q0 by simp
  have q3': "?q * 4 + 3 < int (length (imageData img))"
    using q3 assms(3) by simp
  show ?thesis
    using True store4_nth [OF q0 q3', of _ fg] store4_outOfBounds [OF q0' q3', of fg]
    by (simp add: p store4_length)
qed

lemma fold_concat_map:
  "fold f (concat (map h xs)) = fold (\<lambda>x. fold f (h x)) xs"
  by (induction xs) (simp_all add: fun_eq_iff)

lemma fold_if_Nil:
  "fold f (if d then ps else []) = (\<lambda>s. if d then fold f ps s else s)"
  by (cases d) (simp_all add: fun_eq_iff)

lemma drawModule_plots:
  "drawModule n fg ms sx sy img = plots n fg (module_pixels ms sx sy) img"
  by (simp add: drawModule_def plots_def module_pixels_def fold_concat_map fold_map comp_def)

lemma drawModules_plots:
  "drawModules qr n fg ms off img = plots n fg (dark_pixels qr ms off) img"
  by (simp add: drawModules_def dark_pixels_def fold_concat_map fold_if_Nil drawModule_plots
      plots_def cong: if_cong)

lemma plots_inv:
  assumes "\<forall>(px, py) \<in> set ps. 0 \<le> px \<and> 0 \<le> py"
    and "length (imageData img) = nat (n * n * 4)"
  shows "length (imageData (plots n fg ps img)) = length (imageData img)
    \<and> outOfBounds (plots n fg ps img) = outOfBounds img
    \<and> (\<forall>k < length (imageData img). imageData (plots n fg ps img) ! k =
          (if \<exists>(px, py) \<in> set ps. px < n \<and> py < n \<and> k div 4 = nat (py * n + px)
           then rgba fg ! (k mod 4) else imageData img ! k))"
  using assms
proof (induction ps arbitrary: img)
  case Nil
  then show ?case by (simp add: plots_def)
next
  case (Cons p ps)
  obtain px py where p: "p = (px, py)" by (cases p)
  let ?img = "plot n fg px py img"
  have step: "plots n fg (p # ps) img = plots n fg ps ?img"
    by (simp add: plots_def p)
  have nn: "0 \<le> px" "0 \<le> py" and rest: "\<forall>(px, py) \<in> set ps. 0 \<le> px \<and> 0 \<le> py"
    using Cons.prems(1) p by simp_all
  note P = plot_inv [OF nn Cons.prems(2), of fg]
  have len: "length (imageData ?img) = nat (n * n * 4)"
    using P Cons.prems(2) by simp
  note IH = Cons.IH [OF rest len]
  have l: "length (imageData ?img) = length (imageData img)"
    using P by simp
  have nth: "imageData (plots n fg (p # ps) img) ! k =
      (if \<exists>(px, py) \<in> set (p # ps). px < n \<and> py < n \<and> k div 4 = nat (py * n + px)
       then rgba fg ! (k mod 4) else imageData img ! k)"
    if k: "k < length (imageData img)" for k
  proof -
    have a: "imageData (plots n fg ps ?img) ! k =
        (if \<exists>(px, py) \<in> set ps. px < n \<and> py < n \<and> k div 4 = nat (py * n + px)
         then rgba fg ! (k mod 4) else imageData ?img ! k)"
      using IH k l by simp
    have b: "imageData ?img ! k =
        (if px < n \<and> py < n \<and> k div 4 = nat (py * n + px)
         then rgba fg ! (k mod 4) else imageData img ! k)"
      using P k by simp
    show ?thesis
      unfolding step a b by (auto simp: p)
  qed
  have "length (imageData (plots n fg (p # ps) img)) = length (imageData img)"
    using IH l by (simp add: step)
  moreover have "outOfBounds (plots n fg (p # ps) img) = outOfBounds img"
    using IH P by (simp add: step)
  ultimately show ?case
    using nth by blast
qed

lemma module_pixels_set:
  "(x, y) \<in> set (module_pixels ms sx sy) \<longleftrightarrow>
     sx \<le> x \<and> x < sx + ms \<and> sy \<le> y \<and> y < sy + ms"
proof -
  have "set (module_pixels ms sx sy) =
      (\<Union>dy \<in> {0..ms - 1}. (\<lambda>dx. (sx + dx, sy + dy)) ` {0..ms - 1})"
    by (simp add: module_pixels_def)
  then have e: "(x, y) \<in> set (module_pixels ms sx sy) \<longleftrightarrow>
      (\<exists>dy \<in> {0..ms - 1}. \<exists>dx \<in> {0..ms - 1}. x = sx + dx \<and> y = sy + dy)"
    by (simp add: image_iff)
  show ?thesis
  proof
    assume "(x, y) \<in> set (module_pixels ms sx sy)"
    then obtain dx dy where "0 \<le> dx" "dx \<le> ms - 1" "0 \<le> dy" "dy \<le> ms - 1"
      "x = sx + dx" "y = sy + dy"
      unfolding e by auto
    then show "sx \<le> x \<and> x < sx + ms \<and> sy \<le> y \<and> y < sy + ms"
      by linarith
  next
    assume a: "sx \<le> x \<and> x < sx + ms \<and> sy \<le> y \<and> y < sy + ms"
    have "\<exists>dy \<in> {0..ms - 1}. \<exists>dx \<in> {0..ms - 1}. x = sx + dx \<and> y = sy + dy"
    proof (intro bexI conjI)
      show "x = sx + (x - sx)" "y = sy + (y - sy)" by simp_all
      show "x - sx \<in> {0..ms - 1}" "y - sy \<in> {0..ms - 1}" using a by simp_all
    qed
    then show "(x, y) \<in> set (module_pixels ms sx sy)"
      unfolding e .
  qed
qed

lemma dark_pixels_set:
  "(x, y) \<in> set (dark_pixels qr ms off) \<longleftrightarrow> in_dark_module qr off ms x y"
proof -
  have r: "{0..getModuleCount qr - 1} = {0..<getModuleCount qr}"
    by auto
  have m: "(c + 1) * ms = c * ms + ms" for c
    by (simp add: algebra_simps)
  have "(x, y) \<in> set (dark_pixels qr ms off) \<longleftrightarrow>
      (\<exists>row \<in> {0..getModuleCount qr - 1}. \<exists>col \<in> {0..getModuleCount qr - 1}.
         isDark qr row col \<and> (x, y) \<in> set (module_pixels ms (off + col * ms) (off + row * ms)))"
    by (auto simp: dark_pixels_def split: if_splits)
  also have "\<dots> \<longleftrightarrow> in_dark_module qr off ms x y"
    unfolding in_dark_module_def module_pixels_set r m
    by (simp only: add.assoc)
  finally show ?thesis .
qed

lemma dark_pixels_nonneg:
  assumes "0 \<le> off" and "0 \<le> ms" and "(px, py) \<in> set (dark_pixels qr ms off)"
  shows "0 \<le> px \<and> 0 \<le> py"
proof -
  from assms(3) obtain row col where rc: "0 \<le> row" "0 \<le> col"
    and x: "off + col * ms \<le> px" and y: "off + row * ms \<le> py"
    unfolding dark_pixels_set in_dark_module_def by auto
  have "0 \<le> col * ms" "0 \<le> row * ms"
    using rc assms(2) by simp_all
  then show ?thesis
    using x y assms(1) by linarith
qed

lemma take4_drop:
  assumes "i + 3 < length xs"
  shows "take 4 (drop i xs) = [xs ! i, xs ! (i + 1), xs ! (i + 2), xs ! (i + 3)]"
proof (rule nth_equalityI)
  show "length (take 4 (drop i xs)) = length [xs ! i, xs ! (i + 1), xs ! (i + 2), xs ! (i + 3)]"
    using assms by simp
next
  fix j
  assume "j < length (take 4 (drop i xs))"
  then have "j < 4"
    by simp
  then consider "j = 0" | "j = 1" | "j = 2" | "j = 3"
    by linarith
  then show "take 4 (drop i xs) ! j = [xs ! i, xs ! (i + 1), xs ! (i + 2), xs ! (i + 3)] ! j"
    using assms by cases simp_all
qed

lemma new_Uint8Array_length:
  "length (imageData (new_Uint8Array (n * n * 4))) = nat (n * n * 4)"
  by (simp add: new_Uint8Array_def)

lemma new_Uint8Array_quads:
  "length (imageData (new_Uint8Array (n * n * 4))) = nat (n * n) * 4"
  by (simp add: new_Uint8Array_def nat_mult_distrib)

lemma generatePNG_plots:
  "generatePNG qr params =
    plots (width (sizeP params)) (color params)
      (dark_pixels qr (moduleSize (png_geometry qr params)) (offset (png_geometry qr params)))
      (fillBackground (bgcolor params) 0
        (new_Uint8Array (width (sizeP params) * width (sizeP params) * 4)))"
  by (simp only: generatePNG_def Let_def drawModules_plots)

lemma fillBackground_canvas:
  fixes n :: int and bg :: color
  defines "img \<equiv> fillBackground bg 0 (new_Uint8Array (n * n * 4))"
  shows "length (imageData img) = nat (n * n * 4)"
    and "\<not> outOfBounds img"
    and "k < nat (n * n * 4) \<Longrightarrow> imageData img ! k = rgba bg ! (k mod 4)"
proof -
  note F = fillBackground_inv [of 0 0 "new_Uint8Array (n * n * 4)" "nat (n * n)" bg,
      OF _ _ new_Uint8Array_quads, simplified, folded img_def]
  show "length (imageData img) = nat (n * n * 4)"
    using F by (simp add: new_Uint8Array_length)
  show "\<not> outOfBounds img"
    using F by (simp add: new_Uint8Array_def)
  show "imageData img ! k = rgba bg ! (k mod 4)" if "k < nat (n * n * 4)"
    using F that by (simp add: new_Uint8Array_length)
qed

lemma generatePNG_bytes:
  fixes qr :: qrcode and params :: ParsedQRParams
  assumes "0 \<le> qzone params"
  defines "n \<equiv> width (sizeP params)"
    and "ps \<equiv> dark_pixels qr (moduleSize (png_geometry qr params)) (offset (png_geometry qr params))"
  shows "length (imageData (generatePNG qr params)) = nat (n * n * 4)"
    and "\<not> outOfBounds (generatePNG qr params)"
    and "k < nat (n * n * 4) \<Longrightarrow> imageData (generatePNG qr params) ! k =
          (if \<exists>(px, py) \<in> set ps. px < n \<and> py < n \<and> k div 4 = nat (py * n + px)
           then rgba (color params) ! (k mod 4) else rgba (bgcolor params) ! (k mod 4))"
proof -
  let ?img = "fillBackground (bgcolor params) 0 (new_Uint8Array (n * n * 4))"
  have g: "generatePNG qr params = plots n (color params) ps ?img"
    by (simp only: generatePNG_plots n_def ps_def)
  have ms: "0 \<le> moduleSize (png_geometry qr params)"
    using png_geometry_moduleSize_pos [of qr params] by linarith
  have nn: "\<forall>(px, py) \<in> set ps. 0 \<le> px \<and> 0 \<le> py"
    using dark_pixels_nonneg [OF png_geometry_offset_nonneg [OF assms(1)] ms]
    unfolding ps_def by blast
  have len: "length (imageData ?img) = nat (n * n * 4)"
    by (rule fillBackground_canvas(1))
  note P = plots_inv [OF nn len, of "color params"]
  show "length (imageData (generatePNG qr params)) = nat (n * n * 4)"
    using P len by (simp add: g)
  show "\<not> outOfBounds (generatePNG qr params)"
    using P fillBackground_canvas(2) [of "bgcolor params" n] by (simp add: g)
  show "imageData (generatePNG qr params) ! k =
          (if \<exists>(px, py) \<in> set ps. px < n \<and> py < n \<and> k div 4 = nat (py * n + px)
           then rgba (color params) ! (k mod 4) else rgba (bgcolor params) ! (k mod 4))"
    if "k < nat (n * n * 4)"
    using P that len fillBackground_canvas(3) [OF that, of "bgcolor params"] by (simp add: g)
qed

lemma generatePNG_pixel:
  fixes qr :: qrcode and params :: ParsedQRParams
  defines "n \<equiv> width (sizeP params)"
  assumes "0 \<le> qzone params" and "0 \<le> x" and "x < n" and "0 \<le> y" and "y < n"
  shows "pixel_at (generatePNG qr params) n x y =
    (if in_dark_module qr (offset (png_geometry qr params)) (moduleSize (png_geometry qr params)) x y
     then rgba (color params) else rgba (bgcolor params))"
proof -
  let ?ps = "dark_pixels qr (moduleSize (png_geometry qr params)) (offset (png_geometry qr params))"
  let ?d = "imageData (generatePNG qr params)"
  define q where "q = y * n + x"
  define Q where "Q = nat q"
  have q0: "0 \<le> q" and q3: "q * 4 + 3 < n * n * 4"
    using pixel_index_bounds [OF assms(3-6)] by (simp_all only: q_def)
  have i: "nat (q * 4) = Q * 4"
    using q0 by (simp add: Q_def nat_mult_distrib)
  have len: "length ?d = nat (n * n * 4)"
    using generatePNG_bytes(1) [OF assms(2), of qr] by (simp only: n_def)
  have in3: "Q * 4 + 3 < nat (n * n * 4)"
    using q0 q3 by (simp add: Q_def)
  have ms: "0 \<le> moduleSize (png_geometry qr params)"
    using png_geometry_moduleSize_pos [of qr params] by linarith
  have nn: "0 \<le> px \<and> 0 \<le> py" if "(px, py) \<in> set ?ps" for px py
    using dark_pixels_nonneg [OF png_geometry_offset_nonneg [OF assms(2)] ms that] .
  have C: "(\<exists>(px, py) \<in> set ?ps. px < n \<and> py < n \<and> Q = nat (py * n + px))
      \<longleftrightarrow> (x, y) \<in> set ?ps" (is "?L \<longleftrightarrow> ?R")
  proof
    assume ?L
    then obtain px py where m: "(px, py) \<in> set ?ps" and b: "px < n" "py < n"
      and e: "Q = nat (py * n + px)"
      by auto
    have p0: "0 \<le> px" "0 \<le> py" using nn [OF m] by simp_all
    have "0 \<le> py * n + px"
      using pixel_index_bounds(1) [OF p0(1) b(1) p0(2) b(2)] .
    then have "py * n + px = y * n + x"
      using e q0 by (simp add: Q_def q_def)
    then have "px = x \<and> py = y"
      using pixel_index_inj [OF p0(1) b(1) assms(3,4)] by simp
    then show ?R using m by simp
  next
    assume ?R
    then show ?L
      using assms(4,6) by (auto simp: Q_def q_def)
  qed
  have byte: "?d ! (Q * 4 + j) =
      (if (x, y) \<in> set ?ps then rgba (color params) ! j else rgba (bgcolor params) ! j)"
    if "j < 4" for j
  proof -
    have k: "Q * 4 + j < nat (n * n * 4)" using in3 that by linarith
    have dm: "(Q * 4 + j) div 4 = Q" "(Q * 4 + j) mod 4 = j" using that by simp_all
    show ?thesis
      using generatePNG_bytes(3) [OF assms(2), of "Q * 4 + j" qr, folded n_def, OF k]
      unfolding dm C .
  qed
  have "pixel_at (generatePNG qr params) n x y = [?d ! (Q * 4), ?d ! (Q * 4 + 1), ?d ! (Q * 4 + 2), ?d ! (Q * 4 + 3)]"
    unfolding pixel_at_def q_def [symmetric] i
    by (rule take4_drop) (simp only: len in3)
  also have "\<dots> = (if (x, y) \<in> set ?ps then rgba (color params) else rgba (bgcolor params))"
    using byte [of 0] byte [of 1] byte [of 2] byte [of 3] by (simp add: rgba_def)
  finally show ?thesis
    by (simp only: dark_pixels_set)
qed

text \<open>
  C2. For every module matrix and every configuration within the documented ranges
  the raster renderer hands the encoder a buffer of exactly targetSize * targetSize * 4
  bytes, whatever the rounding of the module size; every pixel of the canvas is
  initialised, with the background or the foreground colour, and every alpha byte,
  the fourth of each pixel, is 255.
\<close>

theorem C2_raster_canvas:
  assumes "documented_ranges qr params"
  shows "int (length (imageData (generatePNG qr params)))
           = width (sizeP params) * width (sizeP params) * 4
     \<and> (\<forall>x \<in> {0..<width (sizeP params)}. \<forall>y \<in> {0..<width (sizeP params)}.
          pixel_at (generatePNG qr params) (width (sizeP params)) x y = rgba (bgcolor params)
          \<or> pixel_at (generatePNG qr params) (width (sizeP params)) x y = rgba (color params))
     \<and> (\<forall>k < length (imageData (generatePNG qr params)).
          k mod 4 = 3 \<longrightarrow> imageData (generatePNG qr params) ! k = 255)"
proof -
  let ?n = "width (sizeP params)"
  have qz: "0 \<le> qzone params"
    using assms by (simp add: documented_ranges_def)
  have len: "length (imageData (generatePNG qr params)) = nat (?n * ?n * 4)"
    by (rule generatePNG_bytes(1) [OF qz])
  have a: "int (length (imageData (generatePNG qr params))) = ?n * ?n * 4"
    by (simp add: len)
  have b: "pixel_at (generatePNG qr params) ?n x y = rgba (bgcolor params)
      \<or> pixel_at (generatePNG qr params) ?n x y = rgba (color params)"
    if "x \<in> {0..<?n}" "y \<in> {0..<?n}" for x y
  proof -
    have "0 \<le> x" "x < ?n" "0 \<le> y" "y < ?n" using that by simp_all
    from generatePNG_pixel [OF qz this, of qr] show ?thesis
      by (simp split: if_splits)
  qed
  have c: "imageData (generatePNG qr params) ! k = 255"
    if "k < length (imageData (generatePNG qr params))" "k mod 4 = 3" for k
  proof -
    have "k < nat (?n * ?n * 4)" using that(1) by (simp only: len)
    from generatePNG_bytes(3) [OF qz this, of qr] show ?thesis
      by (simp add: that(2) rgba_def split: if_splits)
  qed
  show ?thesis
    using a b c by blast
qed

theorem C2_raster_canvas_witness:
  "documented_ranges qr21 params200
   \<and> int (length (imageData (generatePNG qr21 params200))) = 200 * 200 * 4
   \<and> (pixel_at (generatePNG qr21 params200) 200 0 0 = rgba (bgcolor params200)
      \<or> pixel_at (generatePNG qr21 params200) 200 0 0 = rgba (color params200))"
proof -
  have h: "documented_ranges qr21 params200"
    by (simp add: documented_ranges_def qr21_def params200_def)
  have w: "width (sizeP params200) = 200"
    by (simp add: params200_def)
  note t = C2_raster_canvas [OF h, unfolded w]
  have "(0::int) \<in> {0..<200}" by simp
  with t h show ?thesis
    by blast
qed

text \<open>
  C3, as the code has it. In the raster output the pixel at (x, y), with x and y from
  0 up to targetSize, has the foreground colour when it lies in the square [offsetPx +
  col * moduleSizePx, offsetPx + (col + 1) * moduleSizePx) by [offsetPx + row *
  moduleSizePx, offsetPx + (row + 1) * moduleSizePx) of some dark module (row, col), and
  the background colour otherwise; when the two colours differ, it has the foreground
  colour if and only if it lies in such a square. The parts of a square outside the
  canvas change no pixel of the canvas and raise nothing: \<open>generatePNG\<close> has no error
  result.
\<close>

theorem C3_raster_pixels:
  assumes "documented_ranges qr params"
    and "0 \<le> x" and "x < width (sizeP params)" and "0 \<le> y" and "y < width (sizeP params)"
  shows "pixel_at (generatePNG qr params) (width (sizeP params)) x y =
      (if in_dark_module qr (offset (png_geometry qr params))
            (moduleSize (png_geometry qr params)) x y
       then rgba (color params) else rgba (bgcolor params))
    \<and> (rgba (color params) \<noteq> rgba (bgcolor params) \<longrightarrow>
        (pixel_at (generatePNG qr params) (width (sizeP params)) x y = rgba (color params)
         \<longleftrightarrow> in_dark_module qr (offset (png_geometry qr params))
               (moduleSize (png_geometry qr params)) x y))"
proof -
  have qz: "0 \<le> qzone params"
    using assms(1) by (simp add: documented_ranges_def)
  from generatePNG_pixel [OF qz assms(2-5), of qr] show ?thesis
    by auto
qed

theorem C3_raster_pixels_witness:
  "pixel_at (generatePNG qr21 params200) 200 5 5 = rgba (color params200)
   \<and> pixel_at (generatePNG qr21 params200) 200 14 5 = rgba (bgcolor params200)
   \<and> pixel_at (generatePNG qr21 params10) 10 9 9 = rgba (color params10)"
proof -
  have h: "documented_ranges qr21 params200"
    by (simp add: documented_ranges_def qr21_def params200_def)
  have w: "width (sizeP params200) = 200"
    by (simp add: params200_def)
  have "png_geometry qr21 params200 = spec_geometry 21 200 1 0"
    using png_geometry_spec [of params200 qr21] by (simp add: qr21_def params200_def)
  then have geo: "offset (png_geometry qr21 params200) = 5"
      "moduleSize (png_geometry qr21 params200) = 9"
    using spec_geometry_scenario by simp_all
  have dark: "in_dark_module qr21 5 9 5 5"
    unfolding in_dark_module_def
    by (intro bexI [of _ 0]) (simp_all add: qr21_def)
  have light: "\<not> in_dark_module qr21 5 9 14 5"
  proof
    assume "in_dark_module qr21 5 9 14 5"
    then obtain row col where "isDark qr21 row col" and "0 \<le> row" "0 \<le> col"
      and "5 + col * 9 \<le> 14" "14 < 5 + (col + 1) * 9" "5 + row * 9 \<le> 5" "5 < 5 + (row + 1) * 9"
      unfolding in_dark_module_def by auto
    then have "row = 0" "col = 1" "isDark qr21 row col"
      by simp_all
    then show False
      by (simp add: qr21_def)
  qed
  have b: "(0::int) \<le> 5" "(5::int) < 200" "(0::int) \<le> 14" "(14::int) < 200"
    by simp_all
  note t1 = C3_raster_pixels [OF h, unfolded w geo, OF b(1) b(2) b(1) b(2)]
  note t2 = C3_raster_pixels [OF h, unfolded w geo, OF b(3) b(4) b(1) b(2)]
  have h': "documented_ranges qr21 params10"
    by (simp add: documented_ranges_def qr21_def params10_def)
  have w': "width (sizeP params10) = 10"
    by (simp add: params10_def)
  have "png_geometry qr21 params10 = spec_geometry 21 10 1 4"
    using png_geometry_spec [of params10 qr21] by (simp add: qr21_def params10_def)
  then have geo': "offset (png_geometry qr21 params10) = 5"
      "moduleSize (png_geometry qr21 params10) = 1"
    by (simp_all add: spec_geometry_def)
  have clipped: "in_dark_module qr21 5 1 9 9"
    unfolding in_dark_module_def
    by (intro bexI [of _ 4]) (simp_all add: qr21_def)
  have b': "(0::int) \<le> 9" "(9::int) < 10"
    by simp_all
  note t3 = C3_raster_pixels [OF h', unfolded w' geo', OF b' b']
  from t1 t2 t3 dark light clipped show ?thesis
    by simp
qed

text \<open>
  Without the condition on the colours the equivalence fails: for \<open>color=fff\<close> and
  \<open>bgcolor=fff\<close> the pixel at (0, 0) has the foreground colour and lies in the square
  of no dark module, the first module starting at offset 5.
\<close>

theorem C3_foreground_iff_counterexample:
  "pixel_at (generatePNG qr21 params_white) 200 0 0 = rgba (color params_white)
   \<and> \<not> in_dark_module qr21 (offset (png_geometry qr21 params_white))
         (moduleSize (png_geometry qr21 params_white)) 0 0"
proof -
  have qz: "0 \<le> qzone params_white"
    by (simp add: params_white_def)
  have w: "width (sizeP params_white) = 200"
    by (simp add: params_white_def)
  have same: "rgba (bgcolor params_white) = rgba (color params_white)"
    by (simp add: params_white_def rgba_def)
  have b: "(0::int) \<le> 0" "(0::int) < width (sizeP params_white)"
    by (simp_all add: w)
  have "pixel_at (generatePNG qr21 params_white) (width (sizeP params_white)) 0 0 =
      rgba (color params_white)"
    using generatePNG_pixel [OF qz b b, of qr21] by (simp add: same)
  then have p: "pixel_at (generatePNG qr21 params_white) 200 0 0 = rgba (color params_white)"
    by (simp only: w)
  have "png_geometry qr21 params_white = spec_geometry 21 200 1 0"
    using png_geometry_spec [of params_white qr21] by (simp add: qr21_def params_white_def)
  then have geo: "offset (png_geometry qr21 params_white) = 5"
      "moduleSize (png_geometry qr21 params_white) = 9"
    using spec_geometry_scenario by simp_all
  have outside: "\<not> in_dark_module qr21 5 9 0 0"
  proof
    assume "in_dark_module qr21 5 9 0 0"
    then obtain col :: int where "0 \<le> col" and "5 + col * 9 \<le> 0"
      unfolding in_dark_module_def by auto
    then show False
      by linarith
  qed
  show ?thesis
    using p outside by (simp only: geo) simp
qed

text \<open>
  C9. For a configuration with margin >= 0, qzone >= 0 and targetSize >= 1 and every
  module matrix, the offset is not negative and every store of the drawing loop lands
  inside the buffer of targetSize * targetSize * 4 bytes: no store of \<open>generatePNG\<close> is
  dropped, and every pixel the loops visit has non-negative coordinates, so that one
  that passes the one-sided clip has its four bytes inside the buffer.
\<close>

theorem C9_raster_writes_inside:
  assumes "0 \<le> margin params" and "0 \<le> qzone params" and "1 \<le> width (sizeP params)"
  shows "0 \<le> offset (png_geometry qr params)
    \<and> \<not> outOfBounds (generatePNG qr params)
    \<and> (\<forall>(pixelX, pixelY) \<in> set (dark_pixels qr (moduleSize (png_geometry qr params))
                                   (offset (png_geometry qr params))).
          0 \<le> pixelX \<and> 0 \<le> pixelY
          \<and> (pixelX < width (sizeP params) \<and> pixelY < width (sizeP params) \<longrightarrow>
               0 \<le> (pixelY * width (sizeP params) + pixelX) * 4
               \<and> (pixelY * width (sizeP params) + pixelX) * 4 + 3
                   < int (length (imageData (generatePNG qr params)))))"
proof -
  let ?n = "width (sizeP params)"
  let ?ps = "dark_pixels qr (moduleSize (png_geometry qr params)) (offset (png_geometry qr params))"
  have off: "0 \<le> offset (png_geometry qr params)"
    by (rule png_geometry_offset_nonneg [OF assms(2)])
  have ms: "0 \<le> moduleSize (png_geometry qr params)"
    using png_geometry_moduleSize_pos [of qr params] by linarith
  have len: "int (length (imageData (generatePNG qr params))) = ?n * ?n * 4"
    by (simp add: generatePNG_bytes(1) [OF assms(2)])
  have w: "0 \<le> px \<and> 0 \<le> py
      \<and> (px < ?n \<and> py < ?n \<longrightarrow>
           0 \<le> (py * ?n + px) * 4 \<and> (py * ?n + px) * 4 + 3
             < int (length (imageData (generatePNG qr params))))"
    if "(px, py) \<in> set ?ps" for px py
  proof -
    have p0: "0 \<le> px" "0 \<le> py"
      using dark_pixels_nonneg [OF off ms that] by simp_all
    have "0 \<le> (py * ?n + px) * 4 \<and> (py * ?n + px) * 4 + 3 < ?n * ?n * 4"
      if "px < ?n" "py < ?n"
      using pixel_index_bounds [OF p0(1) that(1) p0(2) that(2)] by simp
    then show ?thesis
      using p0 by (simp only: len) blast
  qed
  show ?thesis
    using off generatePNG_bytes(2) [OF assms(2), of qr] w by blast
qed

theorem C9_raster_writes_inside_witness:
  "0 \<le> offset (png_geometry qr21 params10) \<and> \<not> outOfBounds (generatePNG qr21 params10)"
proof -
  have h: "0 \<le> margin params10" "0 \<le> qzone params10" "1 \<le> width (sizeP params10)"
    by (simp_all add: params10_def)
  from C9_raster_writes_inside [OF h, of qr21] show ?thesis
    by blast
qed

section \<open>Vector renderer: the rectangles\<close>

lemma fold_cols_append:
  "fold (\<lambda>col svg. if D col then svg @ F col else svg) cols svg
    = svg @ concat (map F (filter D cols))"
  by (induction cols arbitrary: svg) simp_all

lemma fold_append_concat:
  "fold (\<lambda>row acc. acc @ G row) rows svg = svg @ concat (map G rows)"
  by (induction rows arbitrary: svg) simp_all

lemma concat_row:
  "concat (map (F row) (filter (D row) cols)) =
    concat (map (\<lambda>(row, col). F row col)
      (filter (\<lambda>(row, col). D row col) (map (\<lambda>col. (row, col)) cols)))"
  by (induction cols) simp_all

lemma concat_rows:
  "concat (map (\<lambda>row. concat (map (F row) (filter (D row) cols))) rows) =
    concat (map (\<lambda>(row, col). F row col)
      (filter (\<lambda>(row, col). D row col)
        (concat (map (\<lambda>row. map (\<lambda>col. (row, col)) cols) rows))))"
  by (induction rows) (simp_all add: concat_row)

lemma fold_rows_append:
  "fold (\<lambda>row. fold (\<lambda>col svg. if D row col then svg @ F row col else svg) cols) rows svg
    = svg @ concat (map (\<lambda>(row, col). F row col)
        (filter (\<lambda>(row, col). D row col) (concat (map (\<lambda>row. map (\<lambda>col. (row, col)) cols) rows))))"
proof -
  have "fold (\<lambda>col svg. if D row col then svg @ F row col else svg) cols
      = (\<lambda>svg. svg @ concat (map (F row) (filter (D row) cols)))" for row
    by (rule ext) (rule fold_cols_append)
  then show ?thesis
    by (simp only: fold_append_concat concat_rows)
qed

lemma generateQRCodeSVG_rects:
  "generateQRCodeSVG qr params =
     svg_prolog (width (sizeP params))
     @ background_rect (width (sizeP params)) (colorToHex (bgcolor params))
     @ concat (map (\<lambda>(row, col).
           module_rect (offset (svg_geometry qr params) + col * moduleSize (svg_geometry qr params))
             (offset (svg_geometry qr params) + row * moduleSize (svg_geometry qr params))
             (moduleSize (svg_geometry qr params)) (colorToHex (color params)))
         (dark_modules qr))
     @ js ''</svg>''"
proof -
  have seam: \<open>js ''">\<newline><rect width="'' = js ''">\<newline>'' @ js ''<rect width="''\<close>
    by (simp add: js_def)
  show ?thesis
    unfolding generateQRCodeSVG_def Let_def fold_rows_append seam
      svg_prolog_def background_rect_def module_rect_def dark_modules_def row_major_def
    by (simp only: append_assoc)
qed

lemma row_major_set:
  "set (row_major n) = {(row, col). 0 \<le> row \<and> row < n \<and> 0 \<le> col \<and> col < n}"
  by (auto simp: row_major_def)

lemma row_major_sorted: "sorted_wrt scan_before (row_major n)"
proof -
  have "sorted_wrt scan_before (concat (map (\<lambda>row. map (\<lambda>col. (row, col)) cs) rs))"
    if "sorted_wrt (<) rs" "sorted_wrt (<) cs" for rs cs :: "int list"
    using that
    by (induction rs) (auto simp: sorted_wrt_append sorted_wrt_map scan_before_def)
  then show ?thesis
    by (simp add: row_major_def)
qed

text \<open>
  C5. The vector output is the opening of the document, then a rectangle in the
  background colour over the full targetSize by targetSize canvas, then one rectangle
  in the foreground colour for each dark module, in row-major scan order (rows outer,
  columns inner), then the closing tag. The modules drawn are exactly the dark ones
  of the matrix, each once, and none of the light ones.
\<close>

theorem C5_svg_rectangles:
  "generateQRCodeSVG qr params =
     svg_prolog (width (sizeP params))
     @ background_rect (width (sizeP params)) (colorToHex (bgcolor params))
     @ concat (map (\<lambda>(row, col).
           module_rect (offset (svg_geometry qr params) + col * moduleSize (svg_geometry qr params))
             (offset (svg_geometry qr params) + row * moduleSize (svg_geometry qr params))
             (moduleSize (svg_geometry qr params)) (colorToHex (color params)))
         (dark_modules qr))
     @ js ''</svg>''
   \<and> set (dark_modules qr) =
       {(row, col). 0 \<le> row \<and> row < getModuleCount qr \<and> 0 \<le> col \<and> col < getModuleCount qr
          \<and> isDark qr row col}
   \<and> sorted_wrt scan_before (dark_modules qr)
   \<and> distinct (dark_modules qr)"
proof -
  have s: "set (dark_modules qr) =
      {(row, col). 0 \<le> row \<and> row < getModuleCount qr \<and> 0 \<le> col \<and> col < getModuleCount qr
         \<and> isDark qr row col}"
    by (auto simp: dark_modules_def row_major_set)
  have o: "sorted_wrt scan_before (dark_modules qr)"
    unfolding dark_modules_def by (rule sorted_wrt_filter) (rule row_major_sorted)
  have "distinct xs" if "sorted_wrt scan_before xs" for xs
    using that by (induction xs) (auto simp: scan_before_def)
  then have d: "distinct (dark_modules qr)"
    using o by blast
  show ?thesis
    using generateQRCodeSVG_rects [of qr params] s o d by blast
qed

section \<open>Colours: serialisation and parser\<close>

lemma nibble_cases:
  fixes d :: nat
  assumes "d < 16"
  shows "d = 0 \<or> d = 1 \<or> d = 2 \<or> d = 3 \<or> d = 4 \<or> d = 5 \<or> d = 6 \<or> d = 7
    \<or> d = 8 \<or> d = 9 \<or> d = 10 \<or> d = 11 \<or> d = 12 \<or> d = 13 \<or> d = 14 \<or> d = 15"
  using assms by presburger

lemma digit_char_hex:
  assumes "d < 16"
  shows "digitValue (digit_char d) = Some d"
    and "\<not> isStrWhiteSpaceChar (digit_char d)"
    and "digit_char d \<noteq> of_char CHR ''-''"
    and "digit_char d \<noteq> of_char CHR ''+''"
    and "digit_char d \<noteq> of_char CHR ''#''"
    and "digit_char d \<noteq> of_char CHR ''x''"
    and "digit_char d \<noteq> of_char CHR ''X''"
    and "isHexDigit (digit_char d)"
  using nibble_cases [OF assms]
  by (elim disjE;
      simp add: digit_char_def digitValue_def isStrWhiteSpaceChar_def isHexDigit_def)+

lemma digits_small:
  assumes "n < radix"
  shows "digits radix n = [digit_char n]"
  using assms by (subst digits.simps) simp

lemma digits_byte:
  assumes "n < 256"
  shows "padStart (digits 16 n) 2 (of_char CHR ''0'') = [digit_char (n div 16), digit_char (n mod 16)]"
proof (cases "n < 16")
  case True
  then show ?thesis
    by (simp add: digits_small padStart_def digit_char_def)
next
  case False
  have h: "n div 16 < 16" using assms by simp
  have "digits 16 n = digits 16 (n div 16) @ [digit_char (n mod 16)]"
    using False by (subst digits.simps) simp
  then show ?thesis
    by (simp add: digits_small [OF h] padStart_def)
qed

lemma toHex_byte:
  assumes "0 \<le> n" and "n \<le> 255"
  shows "toHex n = [digit_char (nat n div 16), digit_char (nat n mod 16)]"
proof -
  have "nat n < 256" using assms by simp
  from digits_byte [OF this] show ?thesis
    using assms(1) by (simp add: toHex_def toString_def)
qed

lemma parseInt_hex_pair:
  assumes "hi < 16" and "lo < 16"
  shows "parseInt [digit_char hi, digit_char lo] 16 = Some (int (hi * 16 + lo))"
proof -
  note A = digit_char_hex [OF assms(1)]
  note B = digit_char_hex [OF assms(2)]
  have x: "[digit_char hi, digit_char lo] \<noteq> js ''0x''"
    "[digit_char hi, digit_char lo] \<noteq> js ''0X''"
    using B(6,7) by (simp_all add: js_def)
  have d: "isRadixDigit 16 (digit_char hi)" "isRadixDigit 16 (digit_char lo)"
    using assms by (simp_all add: isRadixDigit_def A(1) B(1))
  show ?thesis
    using A(2,3,4) x d
    by (simp add: parseInt_def Let_def digitsValue_def A(1) B(1))
qed

lemma parseInt_toHex:
  assumes "0 \<le> n" and "n \<le> 255"
  shows "parseInt (toHex n) 16 = Some n"
proof -
  have l: "nat n div 16 < 16" "nat n mod 16 < 16"
    using assms by simp_all
  have "int (nat n div 16 * 16 + nat n mod 16) = n"
    using assms(1) by simp
  then show ?thesis
    using parseInt_hex_pair [OF l] by (simp add: toHex_byte [OF assms])
qed

lemma parseColor_six:
  assumes "of_char CHR ''-'' \<notin> set [h1, h2, h3, h4, h5, h6]"
    and "h1 \<noteq> of_char CHR ''#''"
    and "parseInt [h1, h2] 16 = Some x" and "parseInt [h3, h4] 16 = Some y"
    and "parseInt [h5, h6] 16 = Some z"
  shows "parseColor [h1, h2, h3, h4, h5, h6] = Inr \<lparr> r = x, g = y, b = z \<rparr>"
proof -
  let ?s = "[h1, h2, h3, h4, h5, h6]"
  have a: "?s \<noteq> []" by simp
  have h: "(if hd ?s = of_char CHR ''#'' then tl ?s else ?s) = ?s"
    using assms(2) by simp
  have l: "length ?s \<noteq> 3" "length ?s = 6" by simp_all
  have t: "take 2 ?s = [h1, h2]" "take 2 (drop 2 ?s) = [h3, h4]" "take 2 (drop 4 ?s) = [h5, h6]"
    by simp_all
  show ?thesis
    unfolding parseColor_def Let_def h
    by (simp only: a assms(1) l t assms(3-5) if_False if_True prod.case option.case) simp
qed

text \<open>
  C10. For a colour c whose components are integers from 0 to 255, \<open>colorToHex c\<close> is a
  string of six hexadecimal digits and \<open>parseColor (colorToHex c)\<close> is c.
\<close>

theorem C10_colorToHex_parseColor:
  fixes c :: color
  assumes "0 \<le> r c" and "r c \<le> 255" and "0 \<le> g c" and "g c \<le> 255"
    and "0 \<le> b c" and "b c \<le> 255"
  shows "length (colorToHex c) = 6 \<and> list_all isHexDigit (colorToHex c)
    \<and> parseColor (colorToHex c) = Inr c"
proof -
  define r1 r2 where "r1 = digit_char (nat (r c) div 16)" and "r2 = digit_char (nat (r c) mod 16)"
  define g1 g2 where "g1 = digit_char (nat (g c) div 16)" and "g2 = digit_char (nat (g c) mod 16)"
  define b1 b2 where "b1 = digit_char (nat (b c) div 16)" and "b2 = digit_char (nat (b c) mod 16)"
  have hr: "toHex (r c) = [r1, r2]"
    unfolding r1_def r2_def by (rule toHex_byte [OF assms(1,2)])
  have hg: "toHex (g c) = [g1, g2]"
    unfolding g1_def g2_def by (rule toHex_byte [OF assms(3,4)])
  have hb: "toHex (b c) = [b1, b2]"
    unfolding b1_def b2_def by (rule toHex_byte [OF assms(5,6)])
  have hex: "colorToHex c = [r1, r2, g1, g2, b1, b2]"
    by (simp add: colorToHex_def hr hg hb)
  have lt: "nat (r c) div 16 < 16" "nat (r c) mod 16 < 16" "nat (g c) div 16 < 16"
    "nat (g c) mod 16 < 16" "nat (b c) div 16 < 16" "nat (b c) mod 16 < 16"
    using assms by simp_all
  have each: "x \<noteq> of_char CHR ''-'' \<and> x \<noteq> of_char CHR ''#'' \<and> isHexDigit x"
    if "x \<in> set [r1, r2, g1, g2, b1, b2]" for x
  proof -
    let ?ds = "[nat (r c) div 16, nat (r c) mod 16, nat (g c) div 16, nat (g c) mod 16,
      nat (b c) div 16, nat (b c) mod 16]"
    have m: "[r1, r2, g1, g2, b1, b2] = map digit_char ?ds"
      by (simp add: r1_def r2_def g1_def g2_def b1_def b2_def)
    from that have "x \<in> digit_char ` set ?ds"
      unfolding m by (simp only: set_map)
    then obtain d where "d \<in> set ?ds" and x: "x = digit_char d"
      by blast
    moreover have "\<forall>d \<in> set ?ds. d < 16"
      using lt by simp
    ultimately have d: "d < 16"
      by blast
    show ?thesis
      unfolding x using digit_char_hex(3,5,8) [OF d] by simp
  qed
  have nodash: "of_char CHR ''-'' \<notin> set [r1, r2, g1, g2, b1, b2]"
  proof
    assume "of_char CHR ''-'' \<in> set [r1, r2, g1, g2, b1, b2]"
    from each [OF this] show False by simp
  qed
  have nohash: "r1 \<noteq> of_char CHR ''#''"
    using each [of r1] by simp
  have digs: "list_all isHexDigit [r1, r2, g1, g2, b1, b2]"
    unfolding list_all_iff using each by (intro ballI) simp
  have pr: "parseInt [r1, r2] 16 = Some (r c)" and pg: "parseInt [g1, g2] 16 = Some (g c)"
    and pb: "parseInt [b1, b2] 16 = Some (b c)"
    using parseInt_toHex [OF assms(1,2)] parseInt_toHex [OF assms(3,4)]
      parseInt_toHex [OF assms(5,6)]
    by (simp_all only: hr hg hb)
  have "parseColor (colorToHex c) = Inr \<lparr> r = r c, g = g c, b = b c \<rparr>"
    unfolding hex by (rule parseColor_six [OF nodash nohash pr pg pb])
  then have p: "parseColor (colorToHex c) = Inr c"
    by simp
  have "length (colorToHex c) = 6"
    by (simp add: hex)
  moreover have "list_all isHexDigit (colorToHex c)"
    using digs by (simp only: hex)
  ultimately show ?thesis
    using p by blast
qed

theorem C10_colorToHex_parseColor_witness:
  "colorToHex \<lparr> r = 255, g = 0, b = 10 \<rparr> = js ''ff000a''
   \<and> parseColor (js ''ff000a'') = Inr \<lparr> r = 255, g = 0, b = 10 \<rparr>"
proof -
  let ?c = "\<lparr> r = 255, g = 0, b = 10 \<rparr> :: color"
  have h: "0 \<le> r ?c" "r ?c \<le> 255" "0 \<le> g ?c" "g ?c \<le> 255" "0 \<le> b ?c" "b ?c \<le> 255"
    by simp_all
  have e: "colorToHex ?c = js ''ff000a''"
    by (simp add: colorToHex_def toHex_byte digit_char_def js_def)
  from C10_colorToHex_parseColor [OF h] e show ?thesis
    by simp
qed

lemma dec_digit_facts:
  assumes "isDecDigit c"
  shows "digitValue c = Some (unat c - 48)" and "unat c - 48 < 10"
    and "\<not> isStrWhiteSpaceChar c"
    and "c \<noteq> of_char CHR ''-''" and "c \<noteq> of_char CHR ''+''"
proof -
  have n: "48 \<le> unat c" "unat c \<le> 57"
    using assms by (simp_all add: isDecDigit_def word_le_nat_alt)
  show "digitValue c = Some (unat c - 48)"
    using assms by (simp add: digitValue_def isDecDigit_def)
  show "unat c - 48 < 10"
    using n by linarith
  show "c \<noteq> of_char CHR ''-''" "c \<noteq> of_char CHR ''+''"
    using n by (auto simp: word_unat_eq_iff)
  show "\<not> isStrWhiteSpaceChar c"
    using n by (auto simp: isStrWhiteSpaceChar_def word_le_nat_alt word_unat_eq_iff)
qed

lemma hex_digit_facts:
  assumes "isHexDigit c"
  shows "\<exists>d < 16. digitValue c = Some d"
    and "\<not> isStrWhiteSpaceChar c"
    and "c \<noteq> of_char CHR ''-''" and "c \<noteq> of_char CHR ''+''" and "c \<noteq> of_char CHR ''#''"
    and "c \<noteq> of_char CHR ''x''" and "c \<noteq> of_char CHR ''X''"
proof -
  have n: "(48 \<le> unat c \<and> unat c \<le> 57) \<or> (97 \<le> unat c \<and> unat c \<le> 102)
      \<or> (65 \<le> unat c \<and> unat c \<le> 70)"
    using assms by (simp add: isHexDigit_def word_le_nat_alt)
  show "\<exists>d < 16. digitValue c = Some d"
    using n by (auto simp: digitValue_def word_le_nat_alt)
  show "c \<noteq> of_char CHR ''-''" "c \<noteq> of_char CHR ''+''" "c \<noteq> of_char CHR ''#''"
    "c \<noteq> of_char CHR ''x''" "c \<noteq> of_char CHR ''X''"
    using n by (auto simp: word_unat_eq_iff)
  show "\<not> isStrWhiteSpaceChar c"
    using n by (auto simp: isStrWhiteSpaceChar_def word_le_nat_alt word_unat_eq_iff)
qed

lemma parseInt_decimal:
  assumes "p \<noteq> []" and "list_all isDecDigit p"
  shows "parseInt p 10 = Some (int (digitsValue 10 p))"
proof -
  obtain c cs where p: "p = c # cs"
    using assms(1) by (cases p) auto
  have c: "isDecDigit c"
    using assms(2) p by simp
  have digs: "\<forall>x \<in> set p. isRadixDigit 10 x"
    using assms(2) dec_digit_facts(1,2) by (auto simp: list_all_iff isRadixDigit_def)
  have t: "takeWhile (isRadixDigit 10) p = p"
    using digs by simp
  have d: "dropWhile isStrWhiteSpaceChar p = p"
    using dec_digit_facts(3) [OF c] by (simp add: p)
  have s: "hd p \<noteq> of_char CHR ''-''" "hd p \<noteq> of_char CHR ''+''"
    using dec_digit_facts(4,5) [OF c] by (simp_all add: p)
  show ?thesis
    unfolding parseInt_def Let_def d
    using s assms(1) by (simp add: t)
qed

lemma parseComponent_wellFormed:
  assumes "wellFormedComponent p"
  shows "parseComponent p = Inr (int (digitsValue 10 p))" and "digitsValue 10 p \<le> 255"
  using assms parseInt_decimal [of p]
  by (simp_all add: wellFormedComponent_def parseComponent_def)

lemma parseInt_hex_digits:
  assumes "isHexDigit h1" and "isHexDigit h2"
  shows "\<exists>n. parseInt [h1, h2] 16 = Some n \<and> 0 \<le> n \<and> n \<le> 255"
proof -
  obtain d1 where d1: "d1 < 16" "digitValue h1 = Some d1"
    using hex_digit_facts(1) [OF assms(1)] by blast
  obtain d2 where d2: "d2 < 16" "digitValue h2 = Some d2"
    using hex_digit_facts(1) [OF assms(2)] by blast
  have x: "[h1, h2] \<noteq> js ''0x''" "[h1, h2] \<noteq> js ''0X''"
    using hex_digit_facts(6,7) [OF assms(2)] by (simp_all add: js_def)
  have r: "isRadixDigit 16 h1" "isRadixDigit 16 h2"
    using d1 d2 by (simp_all add: isRadixDigit_def)
  have "parseInt [h1, h2] 16 = Some (int (d1 * 16 + d2))"
    using hex_digit_facts(2,3,4) [OF assms(1)] x r
    by (simp add: parseInt_def Let_def digitsValue_def d1 d2)
  moreover have "d1 * 16 + d2 \<le> 255"
    using d1(1) d2(1) by linarith
  ultimately show ?thesis
    by simp
qed

lemma split_no_sep:
  assumes "sep \<notin> set s"
  shows "split sep s = [s]"
  using assms by (induction s) auto

lemma in_range_color:
  "\<exists>c. (Inr \<lparr> r = x, g = y, b = z \<rparr> :: error + color) = Inr c \<and> r c = x \<and> g c = y \<and> b c = z"
  by simp

lemma parseColor_decimal:
  assumes "length (split (of_char CHR ''-'') s) = 3"
    and "list_all wellFormedComponent (split (of_char CHR ''-'') s)"
  shows "\<exists>c. parseColor s = Inr c \<and> 0 \<le> r c \<and> r c \<le> 255 \<and> 0 \<le> g c \<and> g c \<le> 255
    \<and> 0 \<le> b c \<and> b c \<le> 255"
proof -
  let ?parts = "split (of_char CHR ''-'') s"
  have ne: "s \<noteq> []"
    using assms(1) by auto
  have dash: "of_char CHR ''-'' \<in> set s"
  proof (rule ccontr)
    assume "of_char CHR ''-'' \<notin> set s"
    then have "split (of_char CHR ''-'') s = [s]"
      by (rule split_no_sep)
    with assms(1) show False by simp
  qed
  obtain p0 p1 p2 where parts: "?parts = [p0, p1, p2]"
    using assms(1) by (auto simp: length_Suc_conv numeral_3_eq_3)
  have w: "wellFormedComponent p0" "wellFormedComponent p1" "wellFormedComponent p2"
    using assms(2) [unfolded parts] by simp_all
  note c0 = parseComponent_wellFormed [OF w(1)]
  note c1 = parseComponent_wellFormed [OF w(2)]
  note c2 = parseComponent_wellFormed [OF w(3)]
  have "parseColor s = Inr \<lparr> r = int (digitsValue 10 p0), g = int (digitsValue 10 p1),
      b = int (digitsValue 10 p2) \<rparr>"
    unfolding parseColor_def Let_def parts
    using ne dash by (simp add: c0(1) c1(1) c2(1))
  then show ?thesis
    using c0(2) c1(2) c2(2) by simp
qed

lemma parseColor_hex:
  assumes "s \<noteq> []" and "hex = (if hd s = of_char CHR ''#'' then tl s else s)"
    and "length hex = 3 \<or> length hex = 6" and "list_all isHexDigit hex"
  shows "\<exists>c. parseColor s = Inr c \<and> 0 \<le> r c \<and> r c \<le> 255 \<and> 0 \<le> g c \<and> g c \<le> 255
    \<and> 0 \<le> b c \<and> b c \<le> 255"
proof -
  have hexdash: "of_char CHR ''-'' \<notin> set hex"
    using assms(4) hex_digit_facts(3) by (auto simp: list_all_iff)
  have "set s \<subseteq> insert (of_char CHR ''#'') (set hex)"
    using assms(1,2) by (cases s) (auto split: if_splits)
  then have dash: "of_char CHR ''-'' \<notin> set s"
    using hexdash by auto
  have pc: "parseColor s =
      (if length hex = 3 then
         (case (parseInt [hex ! 0, hex ! 0] 16, parseInt [hex ! 1, hex ! 1] 16,
                parseInt [hex ! 2, hex ! 2] 16) of
            (Some r', Some g', Some b') \<Rightarrow> Inr \<lparr> r = r', g = g', b = b' \<rparr>
          | _ \<Rightarrow> Inl (QRParamError ''Invalid hex color format'' 400))
       else
         (case (parseInt (take 2 hex) 16, parseInt (take 2 (drop 2 hex)) 16,
                parseInt (take 2 (drop 4 hex)) 16) of
            (Some r', Some g', Some b') \<Rightarrow> Inr \<lparr> r = r', g = g', b = b' \<rparr>
          | _ \<Rightarrow> Inl (QRParamError ''Invalid hex color format'' 400)))"
  proof (cases "length hex = 3")
    case True
    show ?thesis
      unfolding parseColor_def Let_def assms(2) [symmetric]
      by (simp only: assms(1) dash True if_False if_True) simp
  next
    case False
    then have six: "length hex = 6"
      using assms(3) by simp
    show ?thesis
      unfolding parseColor_def Let_def assms(2) [symmetric]
      by (simp only: assms(1) dash False six if_False if_True) simp
  qed
  show ?thesis
  proof (cases "length hex = 3")
    case True
    then obtain h0 h1 h2 where h: "hex = [h0, h1, h2]"
      by (auto simp: length_Suc_conv numeral_3_eq_3)
    have d: "isHexDigit h0" "isHexDigit h1" "isHexDigit h2"
      using assms(4) by (simp_all add: h)
    obtain x y z where "parseInt [h0, h0] 16 = Some x" "0 \<le> x" "x \<le> 255"
      "parseInt [h1, h1] 16 = Some y" "0 \<le> y" "y \<le> 255"
      "parseInt [h2, h2] 16 = Some z" "0 \<le> z" "z \<le> 255"
      using parseInt_hex_digits [OF d(1) d(1)] parseInt_hex_digits [OF d(2) d(2)]
        parseInt_hex_digits [OF d(3) d(3)] by blast
    then show ?thesis
      unfolding pc by (simp add: h)
  next
    case False
    then have "length hex = 6"
      using assms(3) by simp
    then obtain h0 h1 h2 h3 h4 h5 where h: "hex = [h0, h1, h2, h3, h4, h5]"
      by (auto simp: length_Suc_conv eval_nat_numeral)
    have d: "isHexDigit h0" "isHexDigit h1" "isHexDigit h2" "isHexDigit h3" "isHexDigit h4"
      "isHexDigit h5"
      using assms(4) by (simp_all add: h)
    obtain x y z where "parseInt [h0, h1] 16 = Some x" "0 \<le> x" "x \<le> 255"
      "parseInt [h2, h3] 16 = Some y" "0 \<le> y" "y \<le> 255"
      "parseInt [h4, h5] 16 = Some z" "0 \<le> z" "z \<le> 255"
      using parseInt_hex_digits [OF d(1) d(2)] parseInt_hex_digits [OF d(3) d(4)]
        parseInt_hex_digits [OF d(5) d(6)] by blast
    then show ?thesis
      unfolding pc by (simp add: h)
  qed
qed

lemma parseColor_wellFormed:
  assumes "wellFormedColor s"
  shows "\<exists>c. parseColor s = Inr c \<and> 0 \<le> r c \<and> r c \<le> 255 \<and> 0 \<le> g c \<and> g c \<le> 255
    \<and> 0 \<le> b c \<and> b c \<le> 255"
proof -
  let ?hex = "if s \<noteq> [] \<and> hd s = of_char CHR ''#'' then tl s else s"
  consider (dec) "length (split (of_char CHR ''-'') s) = 3"
      "list_all wellFormedComponent (split (of_char CHR ''-'') s)"
    | (hex) "length ?hex = 3 \<or> length ?hex = 6" "list_all isHexDigit ?hex"
    using assms unfolding wellFormedColor_def Let_def by blast
  then show ?thesis
  proof cases
    case dec
    then show ?thesis by (rule parseColor_decimal)
  next
    case hex
    have ne: "s \<noteq> []"
      using hex(1) by (auto split: if_splits)
    then have e: "?hex = (if hd s = of_char CHR ''#'' then tl s else s)"
      by simp
    show ?thesis
      using parseColor_hex [OF ne e hex(1)] hex(2) by blast
  qed
qed

lemma parseColor_short_hex:
  assumes "isHexDigit h0" and "isHexDigit h1" and "isHexDigit h2"
  shows "parseColor [h0, h1, h2] = parseColor [h0, h0, h1, h1, h2, h2]"
proof -
  have d: "of_char CHR ''-'' \<notin> set [h0, h1, h2]" "of_char CHR ''-'' \<notin> set [h0, h0, h1, h1, h2, h2]"
    using hex_digit_facts(3) [OF assms(1)] hex_digit_facts(3) [OF assms(2)]
      hex_digit_facts(3) [OF assms(3)]
    by auto
  have h: "h0 \<noteq> of_char CHR ''#''"
    by (rule hex_digit_facts(5) [OF assms(1)])
  show ?thesis
    unfolding parseColor_def Let_def
    using d h by simp
qed

text \<open>
  C6. The specification has \<open>parseColor\<close> return a colour exactly for dash-separated
  decimal triples with components from 0 to 255 and for three or six hexadecimal digits
  after an optional \<open>#\<close>, and raise a parameter error for every other input. The code
  parses \<open>f00\<close> and \<open>255-0-0\<close> to red, and every well-formed input to a colour
  (\<open>parseColor_wellFormed\<close>), but it also returns a colour for \<open>fg0000\<close> and for
  \<open>1x-2-3\<close>, which are not well formed: \<open>parseInt\<close> stops at the first character that
  is no digit and keeps what it has read, so the tests on \<open>NaN\<close> let them through.
\<close>

theorem C6_parseColor_accepts_malformed_hex:
  "parseColor (js ''fg0000'') = Inr \<lparr> r = 15, g = 0, b = 0 \<rparr>
   \<and> \<not> wellFormedColor (js ''fg0000'')
   \<and> parseColor (js ''1x-2-3'') = Inr \<lparr> r = 1, g = 2, b = 3 \<rparr>
   \<and> \<not> wellFormedColor (js ''1x-2-3'')
   \<and> parseColor (js ''f00'') = Inr \<lparr> r = 255, g = 0, b = 0 \<rparr>
   \<and> parseColor (js ''255-0-0'') = Inr \<lparr> r = 255, g = 0, b = 0 \<rparr>"
  by code_simp

section \<open>Charset conversion: idempotence and round trip\<close>

text \<open>
  C7. Converting from UTF-8 to ISO-8859-1 a second time changes nothing: for every
  string s, convert (convert s) is convert s, and a string that is all Latin-1 converts
  to itself. For every pure-ASCII string s, converting from UTF-8 to ISO-8859-1 and back
  from ISO-8859-1 to UTF-8 gives s.
\<close>

theorem C7_convertCharset_idempotent:
  "convertCharset (convertCharset s (js ''UTF-8'') (js ''ISO-8859-1''))
       (js ''UTF-8'') (js ''ISO-8859-1'')
     = convertCharset s (js ''UTF-8'') (js ''ISO-8859-1'')
   \<and> (list_all (\<lambda>c. c \<le> 0xFF) s \<longrightarrow>
        convertCharset s (js ''UTF-8'') (js ''ISO-8859-1'') = s)
   \<and> (list_all (\<lambda>c. c < 0x80) s \<longrightarrow>
        convertCharset (convertCharset s (js ''UTF-8'') (js ''ISO-8859-1''))
          (js ''ISO-8859-1'') (js ''UTF-8'') = s)"
proof -
  have ne: "js ''UTF-8'' \<noteq> js ''ISO-8859-1''" "js ''ISO-8859-1'' \<noteq> js ''UTF-8''"
    by (simp_all add: js_def)
  have c: "convertCharset t (js ''UTF-8'') (js ''ISO-8859-1'')
      = map (\<lambda>c. if 0xFF < c then of_char CHR ''?'' else c) t" for t
    by (simp only: convertCharset_def ne if_False if_True simp_thms)
  have rev_id: "convertCharset t (js ''ISO-8859-1'') (js ''UTF-8'') = t" for t
    by (simp only: convertCharset_def ne if_False if_True simp_thms)
  have latin: "map (\<lambda>c. if 0xFF < c then of_char CHR ''?'' else c) t = t"
    if "list_all (\<lambda>c. c \<le> 0xFF) t" for t :: jsstring
    using that by (induction t) (auto dest: leD)
  have a: "list_all (\<lambda>c. c \<le> 0xFF) (map (\<lambda>c. if 0xFF < c then of_char CHR ''?'' else c) s)"
    by (induction s) (auto simp: not_less)
  have ascii: "list_all (\<lambda>c. c \<le> 0xFF) s" if "list_all (\<lambda>c. c < 0x80) s"
    using that by (induction s) (auto simp: word_less_def word_le_def)
  show ?thesis
    unfolding c rev_id using latin [OF a] latin ascii by blast
qed

theorem C7_convertCharset_idempotent_witness:
  "convertCharset (convertCharset (js ''abc'') (js ''UTF-8'') (js ''ISO-8859-1''))
       (js ''ISO-8859-1'') (js ''UTF-8'') = js ''abc''
   \<and> convertCharset (js ''abc'') (js ''UTF-8'') (js ''ISO-8859-1'') = js ''abc''"
proof -
  have h: "list_all (\<lambda>c. c < 0x80) (js ''abc'')" "list_all (\<lambda>c. c \<le> 0xFF) (js ''abc'')"
    by (simp_all add: js_def)
  from C7_convertCharset_idempotent [of "js ''abc''"] h show ?thesis
    by blast
qed

section \<open>Request parameters: precedence\<close>

lemma setProp_other:
  assumes "key \<noteq> k"
  shows "setProp m key v k = m k"
  using assms by (simp add: setProp_def)

lemma get_fold:
  assumes "k \<noteq> js ''__proto__''"
  shows "fold (\<lambda>(key, value) params. setProp params key value) qs m k =
    (case map_of (rev qs) k of Some v \<Rightarrow> Some v | None \<Rightarrow> m k)"
proof (induction qs arbitrary: m)
  case Nil
  then show ?case by simp
next
  case (Cons q qs)
  obtain key val where q: "q = (key, val)" by (cases q)
  have step: "fold (\<lambda>(key, value) params. setProp params key value) (q # qs) m k =
      (case map_of (rev qs) k of Some v \<Rightarrow> Some v | None \<Rightarrow> setProp m key val k)"
    using Cons.IH [of "setProp m key val"] by (simp add: q)
  have s: "setProp m key val k = (if key = k then Some val else m k)"
    using assms by (auto simp: setProp_def)
  have r: "map_of (rev (q # qs)) k =
      (case map_of (rev qs) k of Some v \<Rightarrow> Some v | None \<Rightarrow> if key = k then Some val else None)"
    by (simp add: q map_add_def split: option.split)
  show ?case
    unfolding step s r by (simp split: option.split)
qed

lemma form_fold_keeps:
  assumes "m k = Some v" and "v \<noteq> []"
  shows "fold (\<lambda>(key, value) params.
            if falsy (getProp params key) then setProp params key value else params) fs m k
    = Some v"
  using assms(1)
proof (induction fs arbitrary: m)
  case Nil
  then show ?case by simp
next
  case (Cons f fs)
  obtain key val where f: "f = (key, val)" by (cases f)
  let ?m = "if falsy (getProp m key) then setProp m key val else m"
  have "?m k = Some v"
  proof (cases "key = k")
    case True
    then have "\<not> falsy (getProp m key)"
      using Cons.prems assms(2) by (simp add: getProp_def falsy_def)
    then show ?thesis using Cons.prems by simp
  next
    case False
    then show ?thesis using Cons.prems by (simp add: setProp_other)
  qed
  from Cons.IH [of ?m, OF this] show ?case
    by (simp add: f)
qed

lemma json_fold_keeps:
  assumes "m k = Some v" and "v \<noteq> []"
  shows "fold (\<lambda>(key, value) params.
            case value of
              JString v \<Rightarrow> if falsy (getProp params key) then setProp params key v else params
            | JOther \<Rightarrow> params) entries m k
    = Some v"
  using assms(1)
proof (induction entries arbitrary: m)
  case Nil
  then show ?case by simp
next
  case (Cons j entries)
  obtain key val where j: "j = (key, val)" by (cases j)
  let ?m = "case val of
      JString v \<Rightarrow> if falsy (getProp m key) then setProp m key v else m
    | JOther \<Rightarrow> m"
  have "?m k = Some v"
  proof (cases "key = k")
    case True
    then have "\<not> falsy (getProp m key)"
      using Cons.prems assms(2) by (simp add: getProp_def falsy_def)
    then show ?thesis using Cons.prems by (simp split: jsonValue.split)
  next
    case False
    then show ?thesis using Cons.prems by (simp add: setProp_other split: jsonValue.split)
  qed
  from Cons.IH [of ?m, OF this] show ?case
    by (simp add: j)
qed

lemma mergeParams_nonempty_get_wins:
  assumes "k \<noteq> js ''__proto__''" and "map_of (rev (searchParams request)) k = Some v"
    and "v \<noteq> []"
  shows "mergeParams request k = Some v"
proof -
  let ?g = "fold (\<lambda>(key, value) params. setProp params key value) (searchParams request) Map.empty"
  have g: "?g k = Some v"
    using get_fold [OF assms(1), of "searchParams request" Map.empty] assms(2) by simp
  show ?thesis
    unfolding mergeParams_def Let_def
    using g form_fold_keeps [where m = ?g and k = k, OF g assms(3)]
      json_fold_keeps [where m = ?g and k = k, OF g assms(3)]
    by (simp split: option.split)
qed

text \<open>
  C8, as the code has it. When a request carries both GET query parameters and a POST
  body, then for every key but \<open>__proto__\<close> whose GET value (the last one in the query
  string) is not the empty string the merged value is that GET value, and a POST value
  is used only for a key for which the query string has no value or the empty string.
\<close>

theorem C8_nonempty_get_wins:
  assumes "key \<noteq> js ''__proto__''"
  shows "(\<forall>v. map_of (rev (searchParams request)) key = Some v \<and> v \<noteq> [] \<longrightarrow>
            getProp (mergeParams request) key = Str v)
     \<and> (\<forall>v. getProp (mergeParams request) key = Str v \<longrightarrow>
            map_of (rev (searchParams request)) key = Some v
            \<or> map_of (rev (searchParams request)) key = None
            \<or> map_of (rev (searchParams request)) key = Some [])"
proof -
  have wins: "getProp (mergeParams request) key = Str v"
    if "map_of (rev (searchParams request)) key = Some v" "v \<noteq> []" for v
    using mergeParams_nonempty_get_wins [OF assms that] by (simp add: getProp_def)
  have only: "map_of (rev (searchParams request)) key = Some v
      \<or> map_of (rev (searchParams request)) key = None
      \<or> map_of (rev (searchParams request)) key = Some []"
    if m: "getProp (mergeParams request) key = Str v" for v
  proof (cases "map_of (rev (searchParams request)) key")
    case None
    then show ?thesis by simp
  next
    case (Some w)
    show ?thesis
    proof (cases "w = []")
      case True
      then show ?thesis using Some by simp
    next
      case False
      from wins [OF Some False] m have "w = v" by simp
      then show ?thesis using Some by simp
    qed
  qed
  show ?thesis
    using wins only by blast
qed

theorem C8_nonempty_get_wins_witness:
  "getProp (mergeParams request_both) (js ''color'') = Str (js ''0f0'')"
proof -
  have k: "js ''color'' \<noteq> js ''__proto__''"
    by (simp add: js_def)
  have g: "map_of (rev (searchParams request_both)) (js ''color'') = Some (js ''0f0'')
      \<and> js ''0f0'' \<noteq> []"
    by (simp add: request_both_def js_def)
  from C8_nonempty_get_wins [OF k, of request_both] g show ?thesis
    by blast
qed

text \<open>
  The precedence of every GET value fails for an empty one: with \<open>?color=\<close> in the query
  string and \<open>color=f00\<close> in the form body the merged value of \<open>color\<close> is \<open>f00\<close>, since
  \<open>!params[key]\<close> is true for the empty string.
\<close>

theorem C8_get_precedence_counterexample:
  "map_of (rev (searchParams request_empty_get)) (js ''color'') = Some []
   \<and> map_of (formData request_empty_get) (js ''color'') = Some (js ''f00'')
   \<and> getProp (mergeParams request_empty_get) (js ''color'') = Str (js ''f00'')
   \<and> getProp (mergeParams request_empty_get) (js ''color'') \<noteq> Str []"
  by code_simp

end
